theory Spec2Isabelle
  imports Main "HOL-Library.Sublist"
begin

section \<open>Strings and the two regular expressions of the response listener\<close>

text \<open>
  Python strings are modelled as \<^typ>\<open>string\<close>. The solver uses \<^verbatim>\<open>re.search\<close> on two
  fixed patterns, \<^verbatim>\<open>/recaptcha/(api2|enterprise)/userverify\<close> and
  \<^verbatim>\<open>"uvresp","(.*?)"\<close>. The fragment of Python's regular expressions they need is
  embedded as a backtracking matcher: literal text, alternation, sequence, a capture
  group and the lazy repetition \<^verbatim>\<open>.*?\<close> of the dot, which matches every character but
  the line feed.
\<close>

datatype regex =
    Chars string
  | Lazy_dots
  | Group regex
  | Alt regex regex
  | Seq regex regex

definition line_feed :: char where
  "line_feed = CHR 0x0A"

definition quote :: char where
  "quote = CHR 0x22"

text \<open>
  The ways \<^verbatim>\<open>.*?\<close> can match at the start of a string, as the remaining input, fewest
  characters first.
\<close>

fun lazy_rests :: "string \<Rightarrow> string list" where
  "lazy_rests [] = [[]]"
| "lazy_rests (c # cs) = (c # cs) # (if c = line_feed then [] else lazy_rests cs)"

text \<open>
  \<open>matches r s\<close> lists the ways \<open>r\<close> matches a prefix of \<open>s\<close> in the order in which a
  backtracking matcher tries them: the texts of the capture groups, and the input left.
\<close>

fun matches :: "regex \<Rightarrow> string \<Rightarrow> (string list \<times> string) list" where
  "matches (Chars l) s = (if take (length l) s = l then [([], drop (length l) s)] else [])"
| "matches Lazy_dots s = map (\<lambda>rest. ([], rest)) (lazy_rests s)"
| "matches (Group r) s =
     map (\<lambda>(caps, rest). (take (length s - length rest) s # caps, rest)) (matches r s)"
| "matches (Alt a b) s = matches a s @ matches b s"
| "matches (Seq a b) s =
     concat (map (\<lambda>(caps, rest). map (\<lambda>(caps', rest'). (caps @ caps', rest')) (matches b rest))
       (matches a s))"

text \<open>
  \<^verbatim>\<open>re.search\<close>: the first match at the leftmost position that has one, as the list of its
  groups; \<open>None\<close> when no position matches.
\<close>

fun search :: "regex \<Rightarrow> string \<Rightarrow> string list option" where
  "search r s =
     (case matches r s of
        (caps, rest) # others \<Rightarrow> Some caps
      | [] \<Rightarrow> (case s of [] \<Rightarrow> None | c # cs \<Rightarrow> search r cs))"

text \<open>\<^verbatim>\<open>match.group(1)\<close>.\<close>

definition group1 :: "string list \<Rightarrow> string option" where
  "group1 caps = (case caps of [] \<Rightarrow> None | g # gs \<Rightarrow> Some g)"

definition userverify_pattern :: regex where
  "userverify_pattern =
     Seq (Chars ''/recaptcha/'')
       (Seq (Group (Alt (Chars ''api2'') (Chars ''enterprise''))) (Chars ''/userverify''))"

definition uvresp_marker :: string where
  "uvresp_marker = [quote] @ ''uvresp'' @ [quote] @ '','' @ [quote]"

definition uvresp_pattern :: regex where
  "uvresp_pattern = Seq (Chars uvresp_marker) (Seq (Group Lazy_dots) (Chars [quote]))"


section \<open>The solver and the world it runs in\<close>

text \<open>
  The exceptions of a run: the two the solver raises itself, the three Python raises on a
  failed subscript or a missing listener, and \<open>Raised name\<close> for an exception raised inside
  a collaborator (the browser automation library, the helpers that locate the reCAPTCHA
  frame and checkbox, the HTTP client, the audio codec, the speech recogniser).
\<close>

datatype error =
    RecaptchaRateLimitError
  | RecaptchaSolveError
  | KeyError
  | IndexError
  | TypeError
  | Raised string

text \<open>The values of decoded JSON, which is what the speech recogniser returns.\<close>

datatype json =
    JNull
  | JBool bool
  | JNum int
  | JStr string
  | JArr "json list"
  | JObj "(string \<times> json) list"

text \<open>A network response as the listener reads it: \<^verbatim>\<open>response.url\<close>, \<^verbatim>\<open>response.text()\<close>.\<close>

record response =
  url :: string
  body :: string

datatype locator =
    Get_by_role string string
  | Get_by_text string
  | Recaptcha_checkbox

text \<open>The calls the solver makes to its collaborators, with their arguments.\<close>

datatype call =
    Wait_for_load_state string
  | Get_recaptcha_frame
  | Get_recaptcha_checkbox
  | Click locator
  | Is_checked locator
  | Is_visible locator
  | Fill locator json
  | Get_attribute locator string
  | Wait_for_timeout int
  | Randint int int
  | Http_get "string option"
  | From_mp3 string
  | Export string string
  | Record_audio string
  | Recognize_google string

text \<open>
  The world answers one call with one snapshot: the \<^verbatim>\<open>response\<close> events the page emits
  while the call runs, the exception the call raises if it fails, and the value it returns
  otherwise; each call reads the field of its own return type.
\<close>

record snapshot =
  emitted :: "response list"
  failure :: "string option"
  truth :: bool
  attr :: "string option"
  content :: string
  api :: json
  entropy :: nat

datatype handler = Extract_token | Foreign nat

datatype entry = Call call snapshot | Callback response

text \<open>
  A \<^verbatim>\<open>SyncSolver\<close> in its world. \<open>retries\<close> and \<open>token\<close> are the object's fields
  \<^verbatim>\<open>_retries\<close> and \<^verbatim>\<open>token\<close>. Its field \<^verbatim>\<open>_page\<close> is a reference to the page, of which the
  model keeps the \<open>listeners\<close> registered on its event emitter (event name and handler,
  in the order of registration). \<open>feed\<close> holds the snapshots that will answer the calls to
  come, and \<open>history\<close> records what has happened: each finished call with its answer, and
  each invocation of the solver's listener.
\<close>

record solver =
  retries :: int
  token :: "string option"
  listeners :: "(string \<times> handler) list"
  history :: "entry list"
  feed :: "snapshot list"

text \<open>\<^verbatim>\<open>SyncSolver(page, retries=3)\<close>, on a page given by its listeners and its future.\<close>

definition init :: "(string \<times> handler) list \<Rightarrow> snapshot list \<Rightarrow> int option \<Rightarrow> solver" where
  "init page_listeners page_feed retries_arg =
     \<lparr>retries = (case retries_arg of None \<Rightarrow> 3 | Some n \<Rightarrow> n), token = None,
      listeners = page_listeners, history = [], feed = page_feed\<rparr>"

text \<open>
  A run returns a value or raises, and leaves a solver; it is \<open>None\<close> when the feed ends
  before the run does, so that a poll that never ends has no result on any feed.
\<close>

type_synonym 'a run = "((error + 'a) \<times> solver) option"

definition ret :: "'a \<Rightarrow> solver \<Rightarrow> 'a run" where
  "ret x s = Some (Inr x, s)"

definition raise :: "error \<Rightarrow> solver \<Rightarrow> 'a run" where
  "raise e s = Some (Inl e, s)"

definition bind :: "'a run \<Rightarrow> ('a \<Rightarrow> solver \<Rightarrow> 'b run) \<Rightarrow> 'b run" where
  "bind m f =
     (case m of
        None \<Rightarrow> None
      | Some (Inl e, s) \<Rightarrow> Some (Inl e, s)
      | Some (Inr x, s) \<Rightarrow> f x s)"

subsection \<open>The response listener\<close>

definition extract_token :: "response \<Rightarrow> solver \<Rightarrow> solver" where
  "extract_token response s =
     (if search userverify_pattern (url response) = None then s
      else
        (case search uvresp_pattern (body response) of
           None \<Rightarrow> s
         | Some token_match \<Rightarrow> s\<lparr>token := group1 token_match\<rparr>))"

subsection \<open>The page's event emitter\<close>

text \<open>
  \<^verbatim>\<open>page.on\<close> and \<^verbatim>\<open>page.remove_listener\<close>: the emitter keeps one entry for each event and
  handler, and removing a handler that is not registered raises \<^verbatim>\<open>KeyError\<close>.
\<close>

definition on :: "string \<Rightarrow> handler \<Rightarrow> solver \<Rightarrow> solver" where
  "on event h s =
     (if (event, h) \<in> set (listeners s) then s
      else s\<lparr>listeners := listeners s @ [(event, h)]\<rparr>)"

definition remove_listener :: "string \<Rightarrow> handler \<Rightarrow> solver \<Rightarrow> unit run" where
  "remove_listener event h s =
     (if (event, h) \<in> set (listeners s)
      then ret () (s\<lparr>listeners := removeAll (event, h) (listeners s)\<rparr>)
      else raise KeyError s)"

text \<open>
  The page emits a \<^verbatim>\<open>response\<close> event: the solver's listener runs if it is registered.
  Listeners of other parties do not touch the solver.
\<close>

definition emit :: "response \<Rightarrow> solver \<Rightarrow> solver" where
  "emit r s =
     (if (''response'', Extract_token) \<in> set (listeners s)
      then extract_token r (s\<lparr>history := history s @ [Callback r]\<rparr>)
      else s)"

subsection \<open>Calls to the collaborators\<close>

text \<open>
  A call to the browser takes the next snapshot, dispatches the events emitted meanwhile,
  and returns or raises. A call to another service (random numbers, HTTP, audio, speech)
  does the same without dispatching: page events are only handled inside browser calls.
\<close>

definition answer :: "call \<Rightarrow> snapshot \<Rightarrow> solver \<Rightarrow> snapshot run" where
  "answer c snap s =
     (let s' = s\<lparr>history := history s @ [Call c snap]\<rparr>
      in case failure snap of Some name \<Rightarrow> raise (Raised name) s' | None \<Rightarrow> ret snap s')"

definition browser_call :: "call \<Rightarrow> solver \<Rightarrow> snapshot run" where
  "browser_call c s =
     (case feed s of
        [] \<Rightarrow> None
      | snap # rest \<Rightarrow> answer c snap (fold emit (emitted snap) (s\<lparr>feed := rest\<rparr>)))"

definition service_call :: "call \<Rightarrow> solver \<Rightarrow> snapshot run" where
  "service_call c s =
     (case feed s of
        [] \<Rightarrow> None
      | snap # rest \<Rightarrow> answer c snap (s\<lparr>feed := rest\<rparr>))"

definition wait_for_load_state :: "string \<Rightarrow> solver \<Rightarrow> unit run" where
  "wait_for_load_state st s = bind (browser_call (Wait_for_load_state st) s) (\<lambda>snap. ret ())"

definition wait_for_timeout :: "int \<Rightarrow> solver \<Rightarrow> unit run" where
  "wait_for_timeout ms s = bind (browser_call (Wait_for_timeout ms) s) (\<lambda>snap. ret ())"

definition click :: "locator \<Rightarrow> solver \<Rightarrow> unit run" where
  "click l s = bind (browser_call (Click l) s) (\<lambda>snap. ret ())"

definition fill :: "locator \<Rightarrow> json \<Rightarrow> solver \<Rightarrow> unit run" where
  "fill l text s = bind (browser_call (Fill l text) s) (\<lambda>snap. ret ())"

definition is_checked :: "locator \<Rightarrow> solver \<Rightarrow> bool run" where
  "is_checked l s = bind (browser_call (Is_checked l) s) (\<lambda>snap. ret (truth snap))"

definition is_visible :: "locator \<Rightarrow> solver \<Rightarrow> bool run" where
  "is_visible l s = bind (browser_call (Is_visible l) s) (\<lambda>snap. ret (truth snap))"

definition get_attribute :: "locator \<Rightarrow> string \<Rightarrow> solver \<Rightarrow> string option run" where
  "get_attribute l name s = bind (browser_call (Get_attribute l name) s) (\<lambda>snap. ret (attr snap))"

text \<open>
  Modelled from the spec: \<^verbatim>\<open>get_recaptcha_frame\<close> and \<^verbatim>\<open>get_recaptcha_checkbox\<close> of
  \<^verbatim>\<open>playwright_recaptcha.recaptchav2.utils\<close>, which is not among the sources. They find
  the reCAPTCHA iframe and its checkbox among the page's frames, or raise.
\<close>

definition get_recaptcha_frame :: "solver \<Rightarrow> unit run" where
  "get_recaptcha_frame s = bind (browser_call Get_recaptcha_frame s) (\<lambda>snap. ret ())"

definition get_recaptcha_checkbox :: "solver \<Rightarrow> unit run" where
  "get_recaptcha_checkbox s = bind (browser_call Get_recaptcha_checkbox s) (\<lambda>snap. ret ())"

text \<open>\<^verbatim>\<open>random.randint(lo, hi)\<close>: a number from \<open>lo\<close> to \<open>hi\<close>, both included.\<close>

definition randint :: "int \<Rightarrow> int \<Rightarrow> solver \<Rightarrow> int run" where
  "randint lo hi s =
     bind (service_call (Randint lo hi) s)
       (\<lambda>snap. ret (lo + int (entropy snap) mod (hi - lo + 1)))"


subsection \<open>Every call shortens the feed\<close>

lemma bind_cong [fundef_cong]:
  assumes "m = m'" and "\<And>x s. m' = Some (Inr x, s) \<Longrightarrow> f x s = f' x s"
  shows "bind m f = bind m' f'"
  using assms by (auto simp: bind_def split: option.splits sum.splits)

lemma bind_Some:
  "bind m f = Some (res, s') \<longleftrightarrow>
     (\<exists>e. m = Some (Inl e, s') \<and> res = Inl e) \<or>
     (\<exists>x s1. m = Some (Inr x, s1) \<and> f x s1 = Some (res, s'))"
  by (auto simp: bind_def split: option.splits sum.splits)

lemma feed_extract_token: "feed (extract_token r s) = feed s"
  by (simp add: extract_token_def split: option.splits)

lemma feed_emit: "feed (emit r s) = feed s"
  by (simp add: emit_def feed_extract_token)

lemma feed_fold_emit: "feed (fold emit rs s) = feed s"
  by (induction rs arbitrary: s) (simp_all add: feed_emit)

lemma answer_feed: "answer c snap s = Some (res, s') \<Longrightarrow> feed s' = feed s"
  by (auto simp: answer_def ret_def raise_def Let_def split: option.splits)

lemma browser_call_feed:
  "browser_call c s = Some (res, s') \<Longrightarrow> length (feed s') < length (feed s)"
  by (auto simp: browser_call_def feed_fold_emit split: list.splits dest!: answer_feed)

lemma service_call_feed:
  "service_call c s = Some (res, s') \<Longrightarrow> length (feed s') < length (feed s)"
  by (auto simp: service_call_def split: list.splits dest!: answer_feed)

lemma is_visible_feed:
  "is_visible l s = Some (res, s') \<Longrightarrow> length (feed s') < length (feed s)"
  by (auto simp: is_visible_def bind_Some ret_def dest: browser_call_feed)

lemma is_checked_feed:
  "is_checked l s = Some (res, s') \<Longrightarrow> length (feed s') < length (feed s)"
  by (auto simp: is_checked_def bind_Some ret_def dest: browser_call_feed)

lemma wait_for_timeout_feed:
  "wait_for_timeout ms s = Some (res, s') \<Longrightarrow> length (feed s') < length (feed s)"
  by (auto simp: wait_for_timeout_def bind_Some ret_def dest: browser_call_feed)

section \<open>The operations of the solver\<close>

text \<open>\<^verbatim>\<open>_random_delay\<close>: wait between one and four seconds.\<close>

definition random_delay :: "solver \<Rightarrow> unit run" where
  "random_delay s = bind (randint 1 4 s) (\<lambda>n. wait_for_timeout (n * 1000))"

text \<open>
  \<^verbatim>\<open>_get_audio_url\<close>. Its \<^verbatim>\<open>while True\<close> loop polls until the audio challenge shows, and
  raises when the rate limit message shows instead.
\<close>

function get_audio_url_poll :: "solver \<Rightarrow> unit run" where
  "get_audio_url_poll s =
     bind (is_visible (Get_by_text ''Press PLAY to listen'') s) (\<lambda>play s.
       if play then ret () s
       else
         bind (is_visible (Get_by_text ''Try again later'') s) (\<lambda>later s.
           if later then raise RecaptchaRateLimitError s
           else bind (wait_for_timeout 100 s) (\<lambda>u. get_audio_url_poll)))"
  by pat_completeness auto
termination
  by (relation "measure (\<lambda>s. length (feed s))")
    (auto dest!: is_visible_feed wait_for_timeout_feed)

definition get_audio_url :: "solver \<Rightarrow> string option run" where
  "get_audio_url s =
     bind (is_visible (Get_by_role ''button'' ''Get an audio challenge'') s) (\<lambda>shown s.
     bind (if shown then click (Get_by_role ''button'' ''Get an audio challenge'') s
           else ret () s) (\<lambda>u s.
     bind (get_audio_url_poll s) (\<lambda>u s.
     get_attribute (Get_by_role ''link'' ''Alternatively, download audio as MP3'') ''href'' s)))"

text \<open>
  Python's subscripts on decoded JSON, for \<^verbatim>\<open>text["alternative"][0]["transcript"]\<close>: a
  string key on a dictionary, the index 0 on a list (or a string).
\<close>

fun getitem :: "json \<Rightarrow> string \<Rightarrow> error + json" where
  "getitem (JObj kvs) k = (case map_of kvs k of None \<Rightarrow> Inl KeyError | Some v \<Rightarrow> Inr v)"
| "getitem v k = Inl TypeError"

fun getitem0 :: "json \<Rightarrow> error + json" where
  "getitem0 (JArr []) = Inl IndexError"
| "getitem0 (JArr (v # vs)) = Inr v"
| "getitem0 (JStr []) = Inl IndexError"
| "getitem0 (JStr (c # cs)) = Inr (JStr [c])"
| "getitem0 (JObj kvs) = Inl KeyError"
| "getitem0 v = Inl TypeError"

definition lift :: "error + 'a \<Rightarrow> solver \<Rightarrow> 'a run" where
  "lift r s = (case r of Inl e \<Rightarrow> raise e s | Inr x \<Rightarrow> ret x s)"

text \<open>
  \<^verbatim>\<open>_convert_audio_to_text\<close>: download the MP3, decode it, export it as WAV, read the WAV
  as audio data, send that to the speech recogniser and take the transcript of the first
  alternative of its answer.
\<close>

definition convert_audio_to_text :: "string option \<Rightarrow> solver \<Rightarrow> json run" where
  "convert_audio_to_text audio_url s =
     bind (service_call (Http_get audio_url) s) (\<lambda>response s.
     bind (service_call (From_mp3 (content response)) s) (\<lambda>audio s.
     bind (service_call (Export (content audio) ''wav'') s) (\<lambda>wav_audio s.
     bind (service_call (Record_audio (content wav_audio)) s) (\<lambda>audio_data s.
     bind (service_call (Recognize_google (content audio_data)) s) (\<lambda>text s.
     bind (lift (getitem (api text) ''alternative'') s) (\<lambda>alternatives s.
     bind (lift (getitem0 alternatives) s) (\<lambda>first s.
     lift (getitem first ''transcript'') s)))))))"

text \<open>
  \<^verbatim>\<open>_submit_audio_text\<close>. Its \<^verbatim>\<open>while True\<close> loop polls until the widget asks for more
  solutions or the checkbox is checked, and raises when the rate limit message shows.
\<close>

function submit_audio_text_poll :: "solver \<Rightarrow> unit run" where
  "submit_audio_text_poll s =
     bind (bind (is_visible
                  (Get_by_text ''Multiple correct solutions required - please solve more.'') s)
             (\<lambda>more s. if more then ret True s else is_checked Recaptcha_checkbox s))
       (\<lambda>done s.
         if done then ret () s
         else
           bind (is_visible (Get_by_text ''Try again later'') s) (\<lambda>later s.
             if later then raise RecaptchaRateLimitError s
             else bind (wait_for_timeout 100 s) (\<lambda>u. submit_audio_text_poll)))"
  by pat_completeness auto
termination
  by (relation "measure (\<lambda>s. length (feed s))")
    (auto simp: bind_Some ret_def split: if_splits
      dest!: is_visible_feed is_checked_feed wait_for_timeout_feed)

definition submit_audio_text :: "json \<Rightarrow> solver \<Rightarrow> unit run" where
  "submit_audio_text text s =
     bind (fill (Get_by_role ''textbox'' ''Enter what you hear'') text s) (\<lambda>u s.
     bind (click (Get_by_role ''button'' ''Verify'') s) (\<lambda>u s.
     submit_audio_text_poll s))"

text \<open>\<^verbatim>\<open>close\<close>: remove the listener, passing over the \<^verbatim>\<open>KeyError\<close> of a missing one.\<close>

definition close :: "solver \<Rightarrow> unit run" where
  "close s =
     (case remove_listener ''response'' Extract_token s of
        Some (Inl KeyError, s') \<Rightarrow> ret () s'
      | r \<Rightarrow> r)"

text \<open>\<^verbatim>\<open>retries or self._retries\<close>: \<^verbatim>\<open>None\<close> and \<^verbatim>\<open>0\<close> are falsy.\<close>

definition effective_retries :: "int option \<Rightarrow> solver \<Rightarrow> int" where
  "effective_retries retries_arg s =
     (case retries_arg of
        None \<Rightarrow> retries s
      | Some n \<Rightarrow> if n = 0 then retries s else n)"

text \<open>
  The \<^verbatim>\<open>while retries > 0\<close> loop of \<^verbatim>\<open>solve_recaptcha\<close>: one pass is one attempt at the
  audio challenge.
\<close>

function attempts :: "int \<Rightarrow> solver \<Rightarrow> unit run" where
  "attempts n s =
     (if n > 0 then
        bind (random_delay s) (\<lambda>u s.
        bind (get_audio_url s) (\<lambda>url s.
        bind (convert_audio_to_text url s) (\<lambda>text s.
        bind (random_delay s) (\<lambda>u s.
        bind (submit_audio_text text s) (\<lambda>u s.
        bind (is_checked Recaptcha_checkbox s) (\<lambda>checked s.
          if checked then ret () s
          else
            bind (click (Get_by_role ''button'' ''Get a new challenge'') s) (\<lambda>u s.
            attempts (n - 1) s)))))))
      else ret () s)"
  by pat_completeness auto
termination
  by (relation "measure (\<lambda>(n, s). nat n)") auto

definition solve_recaptcha :: "int option \<Rightarrow> solver \<Rightarrow> string option run" where
  "solve_recaptcha retries_arg s0 =
     (let s = on ''response'' Extract_token s0;
          n = effective_retries retries_arg s
      in
        bind (wait_for_load_state ''networkidle'' s) (\<lambda>u s.
        bind (get_recaptcha_frame s) (\<lambda>recaptcha_frame s.
        bind (get_recaptcha_checkbox s) (\<lambda>recaptcha_checkbox s.
        bind (click Recaptcha_checkbox s) (\<lambda>u s.
        bind (is_checked Recaptcha_checkbox s) (\<lambda>checked s.
          if checked then ret (token s) s
          else
            bind (attempts n s) (\<lambda>u s.
            bind (is_checked Recaptcha_checkbox s) (\<lambda>checked s.
              if \<not> checked then raise RecaptchaSolveError s
              else ret (token s) s))))))))"


section \<open>Observing a run\<close>

text \<open>
  What the claims say about a run is read off its history. Two calls mark the rounds of
  the retry loop: the first call of \<^verbatim>\<open>_get_audio_url\<close>, which looks for the button
  \<^verbatim>\<open>Get an audio challenge\<close> and so starts an attempt at the audio challenge, and the
  click on \<^verbatim>\<open>Get a new challenge\<close>.
\<close>

datatype mark = Attempt | New_challenge

definition call_marks :: "call \<Rightarrow> mark list" where
  "call_marks c =
     (if c = Is_visible (Get_by_role ''button'' ''Get an audio challenge'') then [Attempt]
      else if c = Click (Get_by_role ''button'' ''Get a new challenge'') then [New_challenge]
      else [])"

fun mark_of :: "entry \<Rightarrow> mark list" where
  "mark_of (Call c snap) = call_marks c"
| "mark_of (Callback r) = []"

definition marks :: "entry list \<Rightarrow> mark list" where
  "marks es = concat (map mark_of es)"

text \<open>\<open>k\<close> attempts, each followed by a click on \<^verbatim>\<open>Get a new challenge\<close>.\<close>

definition rounds :: "nat \<Rightarrow> mark list" where
  "rounds k = concat (replicate k [Attempt, New_challenge])"

text \<open>The responses handed to the solver's listener, and the calls alone.\<close>

fun callback :: "entry \<Rightarrow> response list" where
  "callback (Call c snap) = []"
| "callback (Callback r) = [r]"

definition callbacks :: "entry list \<Rightarrow> response list" where
  "callbacks es = concat (map callback es)"

definition calls :: "entry list \<Rightarrow> entry list" where
  "calls es = filter (\<lambda>e. callback e = []) es"

text \<open>
  The observations that decide a run: the rate limit message was visible, the checkbox
  was found checked or unchecked, a call raised, the speech recogniser answered.
\<close>

fun rate_limited :: "entry \<Rightarrow> bool" where
  "rate_limited (Call c snap) =
     (c = Is_visible (Get_by_text ''Try again later'') \<and> failure snap = None \<and> truth snap)"
| "rate_limited (Callback r) = False"

definition rate_limits :: "entry list \<Rightarrow> nat" where
  "rate_limits es = length (filter rate_limited es)"

fun found_checked :: "entry \<Rightarrow> bool" where
  "found_checked (Call c snap) =
     (c = Is_checked Recaptcha_checkbox \<and> failure snap = None \<and> truth snap)"
| "found_checked (Callback r) = False"

fun found_unchecked :: "entry \<Rightarrow> bool" where
  "found_unchecked (Call c snap) =
     (c = Is_checked Recaptcha_checkbox \<and> failure snap = None \<and> \<not> truth snap)"
| "found_unchecked (Callback r) = False"

fun failed_call :: "string \<Rightarrow> entry \<Rightarrow> bool" where
  "failed_call name (Call c snap) = (failure snap = Some name)"
| "failed_call name (Callback r) = False"

fun recognised :: "entry \<Rightarrow> bool" where
  "recognised (Call (Recognize_google audio_data) snap) = (failure snap = None)"
| "recognised e = False"

text \<open>The last entry of the history of a run that raises, for each exception.\<close>

fun ending :: "error \<Rightarrow> entry \<Rightarrow> bool" where
  "ending (Raised name) e = failed_call name e"
| "ending RecaptchaRateLimitError e = rate_limited e"
| "ending RecaptchaSolveError e = found_unchecked e"
| "ending KeyError e = recognised e"
| "ending IndexError e = recognised e"
| "ending TypeError e = recognised e"

definition err :: "error + 'a \<Rightarrow> error option" where
  "err res = (case res of Inl e \<Rightarrow> Some e | Inr x \<Rightarrow> None)"

text \<open>
  \<open>moved ms k s s'\<close>: from \<open>s\<close> to \<open>s'\<close> the solver kept its retries and its listeners,
  the history grew by entries with the marks \<open>ms\<close> and \<open>k\<close> sightings of the rate limit
  message, and the token is what the listener made of it on the responses handed to it.
\<close>

definition moved :: "mark list \<Rightarrow> nat \<Rightarrow> solver \<Rightarrow> solver \<Rightarrow> bool" where
  "moved ms k s s' \<longleftrightarrow>
     retries s' = retries s \<and> listeners s' = listeners s \<and>
     (\<exists>new. history s' = history s @ new \<and>
        token s' = token (fold extract_token (callbacks new) s) \<and>
        marks new = ms \<and> rate_limits new = k)"

definition ended :: "error option \<Rightarrow> solver \<Rightarrow> bool" where
  "ended e s' =
     (case e of
        None \<Rightarrow> True
      | Some x \<Rightarrow> history s' \<noteq> [] \<and> ending x (last (history s')))"

definition sound :: "mark list \<Rightarrow> solver \<Rightarrow> error option \<Rightarrow> solver \<Rightarrow> bool" where
  "sound ms s e s' \<longleftrightarrow>
     moved ms (if e = Some RecaptchaRateLimitError then 1 else 0) s s' \<and> ended e s' \<and>
     e \<noteq> Some RecaptchaSolveError"

text \<open>
  The token changes through the listener only: the retries are kept, and the token is
  what \<open>extract_token\<close> made of it on the responses the history records as handed to it.
\<close>

definition listener_only :: "solver \<Rightarrow> solver \<Rightarrow> bool" where
  "listener_only s s' \<longleftrightarrow>
     retries s' = retries s \<and>
     (\<exists>new. history s' = history s @ new \<and>
        token s' = token (fold extract_token (callbacks new) s))"

text \<open>
  The operations of a \<^verbatim>\<open>SyncSolver\<close> other than its listener, and what one of them
  leaves: the exception raised, if any, and the solver. \<^verbatim>\<open>__exit__\<close> is \<^verbatim>\<open>close\<close>.
\<close>

datatype operation =
    Random_delay
  | Get_audio_url
  | Convert_audio_to_text "string option"
  | Submit_audio_text json
  | Close
  | Solve_recaptcha "int option"

definition outcome :: "'a run \<Rightarrow> (error option \<times> solver) option" where
  "outcome m = (case m of None \<Rightarrow> None | Some (res, s') \<Rightarrow> Some (err res, s'))"

fun perform :: "operation \<Rightarrow> solver \<Rightarrow> (error option \<times> solver) option" where
  "perform Random_delay s = outcome (random_delay s)"
| "perform Get_audio_url s = outcome (get_audio_url s)"
| "perform (Convert_audio_to_text audio_url) s = outcome (convert_audio_to_text audio_url s)"
| "perform (Submit_audio_text text) s = outcome (submit_audio_text text s)"
| "perform Close s = outcome (close s)"
| "perform (Solve_recaptcha retries_arg) s = outcome (solve_recaptcha retries_arg s)"

text \<open>
  Three stretches of \<open>solve_recaptcha\<close>, named for the proofs: from the start to the
  check after the first click, one pass of the loop up to its check, and the check after
  the loop.
\<close>

definition first_check :: "solver \<Rightarrow> bool run" where
  "first_check s =
     bind (wait_for_load_state ''networkidle'' s) (\<lambda>u s.
     bind (get_recaptcha_frame s) (\<lambda>recaptcha_frame s.
     bind (get_recaptcha_checkbox s) (\<lambda>recaptcha_checkbox s.
     bind (click Recaptcha_checkbox s) (\<lambda>u s.
     is_checked Recaptcha_checkbox s))))"

definition audio_attempt :: "solver \<Rightarrow> bool run" where
  "audio_attempt s =
     bind (random_delay s) (\<lambda>u s.
     bind (get_audio_url s) (\<lambda>url s.
     bind (convert_audio_to_text url s) (\<lambda>text s.
     bind (random_delay s) (\<lambda>u s.
     bind (submit_audio_text text s) (\<lambda>u s.
     is_checked Recaptcha_checkbox s)))))"

definition last_check :: "solver \<Rightarrow> string option run" where
  "last_check s =
     bind (is_checked Recaptcha_checkbox s) (\<lambda>checked s.
       if \<not> checked then raise RecaptchaSolveError s else ret (token s) s)"


text \<open>
  The calls of \<^verbatim>\<open>_convert_audio_to_text\<close> in the order the specification gives them,
  each with its answer from the feed: the download, the two steps of the conversion to a
  waveform, the reading of the waveform and the call of the speech recogniser.
\<close>

definition audio_pipeline :: "string option \<Rightarrow> snapshot list \<Rightarrow> entry list" where
  "audio_pipeline audio_url fd =
     map2 Call
       [Http_get audio_url,
        From_mp3 (content (fd ! 0)),
        Export (content (fd ! 1)) ''wav'',
        Record_audio (content (fd ! 2)),
        Recognize_google (content (fd ! 3))]
       fd"

text \<open>
  For the proofs about \<^verbatim>\<open>"uvresp","(.*?)"\<close>: a scan for the text before the first quote
  of the first line, and the pattern that follows the marker.
\<close>

fun until_quote :: "string \<Rightarrow> (string \<times> string) option" where
  "until_quote [] = None"
| "until_quote (c # cs) =
     (if c = quote then Some ([], cs)
      else if c = line_feed then None
      else map_option (\<lambda>(t, r). (c # t, r)) (until_quote cs))"

definition lazy_quote :: regex where "lazy_quote = Seq (Group Lazy_dots) (Chars [quote])"

section \<open>Concrete worlds\<close>

text \<open>
  Snapshots and feeds on which the operations are run below: a call that succeeds and
  answers no, one that answers yes, the userverify response of a solved challenge, the
  same response with the token broken over two lines, the answer of the speech
  recogniser, and the feed of a run that solves the challenge at the first attempt.
\<close>

definition quiet :: snapshot where
  "quiet = \<lparr>emitted = [], failure = None, truth = False, attr = None, content = [],
     api = JNull, entropy = 0\<rparr>"

definition yes :: snapshot where
  "yes = quiet\<lparr>truth := True\<rparr>"

definition verified :: response where
  "verified =
     \<lparr>url = ''https://www.google.com/recaptcha/api2/userverify?k=6Le'',
      body = '')]}'' @ [line_feed] @ ''['' @ uvresp_marker @ ''03AGdBq2'' @ [quote] @ '',1,120]''\<rparr>"

definition broken :: response where
  "broken =
     \<lparr>url = ''https://www.google.com/recaptcha/api2/userverify?k=6Le'',
      body = ''['' @ uvresp_marker @ (''03AG'' @ [line_feed] @ ''dBq2'') @ [quote] @ '',1,120]''\<rparr>"

definition reload :: response where
  "reload = verified\<lparr>url := ''https://www.google.com/recaptcha/api2/reload?k=6Le''\<rparr>"

definition heard :: json where
  "heard =
     JObj [(''alternative'',
            JArr [JObj [(''transcript'', JStr ''seven two''), (''confidence'', JNum 1)],
                  JObj [(''transcript'', JStr ''seventy two'')]]),
           (''final'', JBool True)]"

definition first_attempt :: "snapshot list" where
  "first_attempt =
     [quiet\<lparr>entropy := 2\<rparr>, quiet, yes, quiet, yes,
      quiet\<lparr>attr := Some ''https://www.google.com/recaptcha/api2/payload/audio.mp3''\<rparr>,
      quiet\<lparr>content := ''mp3''\<rparr>, quiet\<lparr>content := ''pcm''\<rparr>, quiet\<lparr>content := ''wav''\<rparr>,
      quiet\<lparr>content := ''data''\<rparr>, quiet\<lparr>api := heard\<rparr>,
      quiet, quiet, quiet, quiet, quiet, yes\<lparr>emitted := [verified]\<rparr>]"

definition solved_feed :: "snapshot list" where
  "solved_feed = [quiet, quiet, quiet, quiet, quiet] @ first_attempt @ [yes, yes]"

text \<open>
  Runs of \<open>solve_recaptcha\<close> and the solvers they end in. The checkbox is checked by the
  first click and no userverify response has come. The first attempt solves the challenge
  (\<open>solved_feed\<close>). The rate limit message shows during the first attempt, while the
  world would have let a second attempt succeed. Both attempts allowed end with the
  request for more solutions and the checkbox unchecked (\<open>two_failed\<close>). The first attempt
  fails and the second solves the challenge (\<open>retried_feed\<close>). The speech recogniser
  understands nothing in the first attempt and answers with the empty list, as
  \<^verbatim>\<open>recognize_google\<close> does with \<^verbatim>\<open>show_all=True\<close>, while the world would have let a second
  attempt succeed (\<open>deaf_feed\<close>). The checkbox is found checked by the first attempt and
  unchecked by the check after the loop (\<open>flip_feed\<close>).
\<close>

definition checked_at_once :: "snapshot list" where
  "checked_at_once = [quiet, quiet, quiet, quiet, yes]"







definition limited_feed :: "snapshot list" where
  "limited_feed =
     [quiet, quiet, quiet, quiet, quiet] @ [quiet, quiet, yes, quiet, quiet, yes] @
     first_attempt @ [yes, yes]"

definition opening_calls :: "call list" where
  "opening_calls =
     [Wait_for_load_state ''networkidle'', Get_recaptcha_frame, Get_recaptcha_checkbox,
      Click Recaptcha_checkbox, Is_checked Recaptcha_checkbox]"

definition attempt_calls :: "int \<Rightarrow> call list" where
  "attempt_calls ms =
     [Randint 1 4, Wait_for_timeout ms,
      Is_visible (Get_by_role ''button'' ''Get an audio challenge''),
      Click (Get_by_role ''button'' ''Get an audio challenge''),
      Is_visible (Get_by_text ''Press PLAY to listen''),
      Get_attribute (Get_by_role ''link'' ''Alternatively, download audio as MP3'') ''href'',
      Http_get (Some ''https://www.google.com/recaptcha/api2/payload/audio.mp3''),
      From_mp3 ''mp3'', Export ''pcm'' ''wav'', Record_audio ''wav'', Recognize_google ''data'',
      Randint 1 4, Wait_for_timeout 1000,
      Fill (Get_by_role ''textbox'' ''Enter what you hear'') (JStr ''seven two''),
      Click (Get_by_role ''button'' ''Verify''),
      Is_visible (Get_by_text ''Multiple correct solutions required - please solve more.'')]"

definition checked_state :: solver where
  "checked_state =
     \<lparr>retries = 3, token = None, listeners = [(''response'', Extract_token)],
      history = map2 Call opening_calls checked_at_once, feed = []\<rparr>"

definition solved_state :: solver where
  "solved_state =
     \<lparr>retries = 3, token = Some ''03AGdBq2'', listeners = [(''response'', Extract_token)],
      history =
        map2 Call (opening_calls @ attempt_calls 3000) (take 21 solved_feed) @
        [Callback verified] @
        map2 Call
          [Is_checked Recaptcha_checkbox, Is_checked Recaptcha_checkbox,
           Is_checked Recaptcha_checkbox]
          (drop 21 solved_feed),
      feed = []\<rparr>"






definition limited_state :: solver where
  "limited_state =
     \<lparr>retries = 3, token = None, listeners = [(''response'', Extract_token)],
      history =
        map2 Call
          (opening_calls @
           [Randint 1 4, Wait_for_timeout 1000,
            Is_visible (Get_by_role ''button'' ''Get an audio challenge''),
            Click (Get_by_role ''button'' ''Get an audio challenge''),
            Is_visible (Get_by_text ''Press PLAY to listen''),
            Is_visible (Get_by_text ''Try again later'')])
          (take 11 limited_feed),
      feed = first_attempt @ [yes, yes]\<rparr>"


text \<open>
  Two shorter runs: \<^verbatim>\<open>_convert_audio_to_text\<close> on a world that answers all five calls,
  and \<^verbatim>\<open>_submit_audio_text\<close> followed by the check of the checkbox, on a world that asks
  for more solutions and leaves the checkbox unchecked.
\<close>

definition heard_feed :: "snapshot list" where
  "heard_feed =
     [quiet\<lparr>content := ''mp3''\<rparr>, quiet\<lparr>content := ''pcm''\<rparr>, quiet\<lparr>content := ''wav''\<rparr>,
      quiet\<lparr>content := ''data''\<rparr>, quiet\<lparr>api := heard\<rparr>]"

definition heard_state :: solver where
  "heard_state =
     \<lparr>retries = 3, token = None, listeners = [],
      history = audio_pipeline (Some ''https://www.google.com/recaptcha/api2/payload/audio.mp3'') heard_feed,
      feed = []\<rparr>"

definition more_feed :: "snapshot list" where
  "more_feed = [quiet, quiet, yes, quiet]"

definition more_state :: solver where
  "more_state =
     \<lparr>retries = 3, token = None, listeners = [],
      history =
        map2 Call
          [Fill (Get_by_role ''textbox'' ''Enter what you hear'') (JStr ''seven two''),
           Click (Get_by_role ''button'' ''Verify''),
           Is_visible (Get_by_text ''Multiple correct solutions required - please solve more.''),
           Is_checked Recaptcha_checkbox]
          more_feed,
      feed = []\<rparr>"

section \<open>What \<^verbatim>\<open>re.search\<close> finds with the two patterns\<close>

lemma until_quote_Some:
  "until_quote s = Some (t, r) \<longleftrightarrow> s = t @ quote # r \<and> quote \<notin> set t \<and> line_feed \<notin> set t"
proof (induction s arbitrary: t r)
  case Nil
  then show ?case by simp
next
  case (Cons c cs)
  show ?case
  proof (cases "c = quote")
    case True
    then show ?thesis by (cases t) auto
  next
    case False
    then show ?thesis using Cons.IH by (cases t) auto
  qed
qed

lemma lazy_rests_length: "rest \<in> set (lazy_rests s) \<Longrightarrow> length rest \<le> length s"
  by (induction s) (auto split: if_splits)

lemma matches_group_lazy_Cons:
  "matches (Group Lazy_dots) (c # cs) =
     ([[]], c # cs) #
       (if c = line_feed then []
        else map (\<lambda>(caps, rest). (map ((#) c) caps, rest)) (matches (Group Lazy_dots) cs))"
  by (auto simp: Suc_diff_le dest: lazy_rests_length)

lemma matches_group_lazy_Nil: "matches (Group Lazy_dots) [] = [([[]], [])]"
  by simp


lemma lazy_quote_Nil: "matches lazy_quote [] = []"
  by (simp add: lazy_quote_def)

lemma seq_unfold:
  "matches (Seq a b) s =
     concat (map (\<lambda>(caps, rest). map (\<lambda>(caps', rest'). (caps @ caps', rest')) (matches b rest))
       (matches a s))"
  by simp

lemma lazy_quote_Cons:
  "matches lazy_quote (c # cs) =
     (if c = quote then [([[]], cs)] else []) @
     (if c = line_feed then [] else map (\<lambda>(caps, rest). (map ((#) c) caps, rest)) (matches lazy_quote cs))"
  unfolding lazy_quote_def seq_unfold matches_group_lazy_Cons
  by (auto simp: map_concat comp_def case_prod_unfold simp del: matches.simps(3) intro!: arg_cong[where f=concat])

lemma lazy_quote_first:
  "(case matches lazy_quote s of [] \<Rightarrow> None | (caps, r) # others \<Rightarrow> Some (caps, r)) =
     map_option (\<lambda>(t, r). ([t], r)) (until_quote s)"
proof (induction s)
  case Nil
  then show ?case by (simp add: lazy_quote_Nil)
next
  case (Cons c cs)
  then show ?case
    by (cases "until_quote cs")
      (auto simp: lazy_quote_Cons quote_def line_feed_def split: list.splits option.splits)
qed

lemma search_None_iff: "search r s = None \<longleftrightarrow> (\<forall>p q. s = p @ q \<longrightarrow> matches r q = [])"
proof (induction s)
  case Nil
  then show ?case by (auto split: list.splits)
next
  case (Cons c cs)
  show ?case
  proof (cases "matches r (c # cs)")
    case Nil
    then show ?thesis using Cons.IH
      by (auto simp: Cons_eq_append_conv)
  next
    case (Cons m ms)
    then show ?thesis
      by (cases m) (auto intro: exI[of _ "[]"])
  qed
qed

lemma search_Some_iff:
  "search r s = Some caps \<longleftrightarrow>
     (\<exists>p q rest others. s = p @ q \<and> matches r q = (caps, rest) # others \<and>
        (\<forall>p' q'. s = p' @ q' \<longrightarrow> length p' < length p \<longrightarrow> matches r q' = []))"
proof (induction s)
  case Nil
  then show ?case by (auto split: list.splits)
next
  case (Cons c cs)
  show ?case
  proof (cases "matches r (c # cs)")
    case Nil
    have "search r (c # cs) = Some caps \<longleftrightarrow> search r cs = Some caps"
      using Nil by simp
    also have "\<dots> \<longleftrightarrow> (\<exists>p q rest others. cs = p @ q \<and> matches r q = (caps, rest) # others \<and>
        (\<forall>p' q'. cs = p' @ q' \<longrightarrow> length p' < length p \<longrightarrow> matches r q' = []))"
      by (rule Cons.IH)
    also have "\<dots> \<longleftrightarrow> (\<exists>p q rest others. c # cs = p @ q \<and> matches r q = (caps, rest) # others \<and>
        (\<forall>p' q'. c # cs = p' @ q' \<longrightarrow> length p' < length p \<longrightarrow> matches r q' = []))"
      (is "?L \<longleftrightarrow> ?R")
    proof
      assume ?L
      then obtain p q rest others where *: "cs = p @ q" "matches r q = (caps, rest) # others"
        "\<forall>p' q'. cs = p' @ q' \<longrightarrow> length p' < length p \<longrightarrow> matches r q' = []" by blast
      have "\<forall>p' q'. c # cs = p' @ q' \<longrightarrow> length p' < length (c # p) \<longrightarrow> matches r q' = []"
        using *(3) Nil by (auto simp: Cons_eq_append_conv)
      with * show ?R by (intro exI[of _ "c # p"] exI[of _ q] exI[of _ rest] exI[of _ others]) simp
    next
      assume ?R
      then obtain p q rest others where *: "c # cs = p @ q" "matches r q = (caps, rest) # others"
        "\<forall>p' q'. c # cs = p' @ q' \<longrightarrow> length p' < length p \<longrightarrow> matches r q' = []" by blast
      from *(1,2) Nil obtain p0 where p: "p = c # p0" "cs = p0 @ q"
        by (cases p) auto
      have "\<forall>p' q'. cs = p' @ q' \<longrightarrow> length p' < length p0 \<longrightarrow> matches r q' = []"
      proof (intro allI impI)
        fix p' q' assume "cs = p' @ q'" "length p' < length p0"
        then show "matches r q' = []" using *(3)[rule_format, of "c # p'" q'] p by simp
      qed
      with p * show ?L by blast
    qed
    finally show ?thesis .
  next
    case (Cons m ms)
    obtain caps0 rest0 where m: "m = (caps0, rest0)" by (cases m)
    show ?thesis
    proof
      assume "search r (c # cs) = Some caps"
      with Cons m have "caps0 = caps" by simp
      with Cons m show "\<exists>p q rest others. c # cs = p @ q \<and> matches r q = (caps, rest) # others \<and>
        (\<forall>p' q'. c # cs = p' @ q' \<longrightarrow> length p' < length p \<longrightarrow> matches r q' = [])"
        by (intro exI[of _ "[]"] exI[of _ "c # cs"] exI[of _ rest0] exI[of _ ms]) simp
    next
      assume "\<exists>p q rest others. c # cs = p @ q \<and> matches r q = (caps, rest) # others \<and>
        (\<forall>p' q'. c # cs = p' @ q' \<longrightarrow> length p' < length p \<longrightarrow> matches r q' = [])"
      then obtain p q rest others where *: "c # cs = p @ q" "matches r q = (caps, rest) # others"
        "\<forall>p' q'. c # cs = p' @ q' \<longrightarrow> length p' < length p \<longrightarrow> matches r q' = []" by blast
      have "p = []"
      proof (rule ccontr)
        assume "p \<noteq> []"
        then have "matches r (c # cs) = []" using *(3)[rule_format, of "[]" "c # cs"] by simp
        with Cons show False by simp
      qed
      with * Cons m show "search r (c # cs) = Some caps" by simp
    qed
  qed
qed

declare search.simps [simp del]

lemma matches_chars_seq:
  "matches (Seq (Chars l) r) s =
     (if take (length l) s = l then matches r (drop (length l) s) else [])"
  by (simp add: case_prod_unfold)

lemma take_eq_iff: "take (length l) s = l \<longleftrightarrow> (\<exists>q. s = l @ q)"
  by (metis append_eq_conv_conj)

lemma starts_split:
  "take (length (l @ m)) s = l @ m \<longleftrightarrow>
     take (length l) s = l \<and> take (length m) (drop (length l) s) = m"
  by (metis append_eq_conv_conj append.assoc take_eq_iff)

lemma matches_chars: "matches (Chars l) s \<noteq> [] \<longleftrightarrow> take (length l) s = l"
  by simp

lemma matches_seq_chars_last:
  "matches (Seq r (Chars l)) s \<noteq> [] \<longleftrightarrow>
     (\<exists>caps rest. (caps, rest) \<in> set (matches r s) \<and> take (length l) rest = l)"
proof -
  have "matches (Seq r (Chars l)) s \<noteq> [] \<longleftrightarrow>
      (\<exists>x \<in> set (matches r s). take (length l) (snd x) = l)"
    by (auto simp: case_prod_unfold)
  also have "\<dots> \<longleftrightarrow> (\<exists>caps rest. (caps, rest) \<in> set (matches r s) \<and> take (length l) rest = l)"
    by force
  finally show ?thesis .
qed

lemma matches_group_alt_chars:
  "(caps, rest) \<in> set (matches (Group (Alt (Chars a) (Chars b))) s) \<longleftrightarrow>
     (take (length a) s = a \<and> rest = drop (length a) s \<and> caps = [take (length s - length rest) s]) \<or>
     (take (length b) s = b \<and> rest = drop (length b) s \<and> caps = [take (length s - length rest) s])"
  by auto

lemma userverify_matches:
  "matches userverify_pattern q \<noteq> [] \<longleftrightarrow>
     take (length ''/recaptcha/api2/userverify'') q = ''/recaptcha/api2/userverify'' \<or>
     take (length ''/recaptcha/enterprise/userverify'') q = ''/recaptcha/enterprise/userverify''"
proof -
  have a: "''/recaptcha/api2/userverify'' = ''/recaptcha/'' @ ''api2'' @ ''/userverify''" by simp
  have b: "''/recaptcha/enterprise/userverify'' = ''/recaptcha/'' @ ''enterprise'' @ ''/userverify''" by simp
  show ?thesis
    unfolding userverify_pattern_def matches_chars_seq matches_seq_chars_last
      matches_group_alt_chars a b starts_split
    by auto
qed

lemma search_userverify:
  "search userverify_pattern u \<noteq> None \<longleftrightarrow>
     sublist ''/recaptcha/api2/userverify'' u \<or> sublist ''/recaptcha/enterprise/userverify'' u"
  unfolding search_None_iff sublist_def
  by (simp only: userverify_matches take_eq_iff not_all not_imp not_not) blast

lemma until_quote_exists: "line_feed \<notin> set t \<Longrightarrow> until_quote (t @ quote # r) \<noteq> None"
  by (induction t) auto

lemma until_quote_None:
  "until_quote s = None \<longleftrightarrow> \<not> (\<exists>t r. s = t @ quote # r \<and> line_feed \<notin> set t)"
proof
  assume "until_quote s = None"
  then show "\<not> (\<exists>t r. s = t @ quote # r \<and> line_feed \<notin> set t)"
    using until_quote_exists by blast
next
  assume *: "\<not> (\<exists>t r. s = t @ quote # r \<and> line_feed \<notin> set t)"
  show "until_quote s = None"
  proof (cases "until_quote s")
    case None
    then show ?thesis .
  next
    case (Some a)
    then show ?thesis using * until_quote_Some[of s "fst a" "snd a"] by auto
  qed
qed

lemma uvresp_unfold:
  "matches uvresp_pattern q =
     (if take (length uvresp_marker) q = uvresp_marker
      then matches lazy_quote (drop (length uvresp_marker) q) else [])"
  unfolding uvresp_pattern_def lazy_quote_def[symmetric] by (rule matches_chars_seq)

lemma uvresp_matches_Cons:
  assumes "matches uvresp_pattern q = (caps, rest) # others"
  shows "\<exists>t. caps = [t] \<and> q = uvresp_marker @ t @ quote # rest \<and> quote \<notin> set t \<and> line_feed \<notin> set t"
proof -
  from assms have st: "take (length uvresp_marker) q = uvresp_marker"
    and m: "matches lazy_quote (drop (length uvresp_marker) q) = (caps, rest) # others"
    by (auto simp: uvresp_unfold split: if_splits)
  from m lazy_quote_first[of "drop (length uvresp_marker) q"]
  obtain t where "until_quote (drop (length uvresp_marker) q) = Some (t, rest)" "caps = [t]"
    by (cases "until_quote (drop (length uvresp_marker) q)") auto
  moreover from st have "q = uvresp_marker @ drop (length uvresp_marker) q"
    by (metis append_take_drop_id)
  ultimately show ?thesis by (metis until_quote_Some)
qed

lemma uvresp_matches_Nil:
  "matches uvresp_pattern q = [] \<longleftrightarrow>
     \<not> (\<exists>t rest. q = uvresp_marker @ t @ quote # rest \<and> line_feed \<notin> set t)"
proof -
  have "matches lazy_quote s = [] \<longleftrightarrow> until_quote s = None" for s
    using lazy_quote_first[of s] by (cases "until_quote s") (auto split: list.splits)
  then have "matches uvresp_pattern q = [] \<longleftrightarrow>
      \<not> (take (length uvresp_marker) q = uvresp_marker \<and>
         (\<exists>t r. drop (length uvresp_marker) q = t @ quote # r \<and> line_feed \<notin> set t))"
    unfolding uvresp_unfold by (simp add: until_quote_None)
  also have "\<dots> \<longleftrightarrow> \<not> (\<exists>t rest. q = uvresp_marker @ t @ quote # rest \<and> line_feed \<notin> set t)"
    by (metis append_eq_conv_conj)
  finally show ?thesis .
qed

lemma search_uvresp_None:
  "search uvresp_pattern b = None \<longleftrightarrow>
     \<not> (\<exists>t. line_feed \<notin> set t \<and> sublist (uvresp_marker @ t @ [quote]) b)"
  unfolding search_None_iff uvresp_matches_Nil sublist_def by auto

lemma search_uvresp_Some:
  assumes "search uvresp_pattern b = Some caps"
  shows "\<exists>p t q. caps = [t] \<and> b = p @ uvresp_marker @ t @ quote # q \<and>
           quote \<notin> set t \<and> line_feed \<notin> set t \<and>
           (\<forall>p' t' q'. b = p' @ uvresp_marker @ t' @ quote # q' \<longrightarrow> line_feed \<notin> set t' \<longrightarrow>
              length p \<le> length p')"
proof -
  from assms obtain p q0 rest others where b: "b = p @ q0"
    and m: "matches uvresp_pattern q0 = (caps, rest) # others"
    and least: "\<forall>p' q'. b = p' @ q' \<longrightarrow> length p' < length p \<longrightarrow> matches uvresp_pattern q' = []"
    unfolding search_Some_iff by blast
  from uvresp_matches_Cons[OF m] obtain t where t: "caps = [t]"
    "q0 = uvresp_marker @ t @ quote # rest" "quote \<notin> set t" "line_feed \<notin> set t" by blast
  have "length p \<le> length p'"
    if "b = p' @ uvresp_marker @ t' @ quote # q'" "line_feed \<notin> set t'" for p' t' q'
  proof (rule ccontr)
    assume "\<not> length p \<le> length p'"
    then have "matches uvresp_pattern (uvresp_marker @ t' @ quote # q') = []"
      using least that(1) by auto
    then show False using that(2) unfolding uvresp_matches_Nil by blast
  qed
  with b t show ?thesis by blast
qed

section \<open>The response listener\<close>

lemma verified_url: "sublist ''/recaptcha/api2/userverify'' (url verified)"
  by (simp add: verified_def sublist_code(3))

lemma verified_body: "sublist (uvresp_marker @ ''03AGdBq2'' @ [quote]) (body verified)"
  by (simp add: verified_def sublist_code(3) uvresp_marker_def quote_def line_feed_def)

lemma extract_token_verified: "extract_token verified s = s\<lparr>token := Some ''03AGdBq2''\<rparr>"
  by (simp add: extract_token_def verified_def userverify_pattern_def uvresp_pattern_def
      uvresp_marker_def quote_def line_feed_def group1_def search.simps)

text \<open>
  Claim C4, as the code has it. \<^verbatim>\<open>_extract_token\<close> sets the token exactly when the URL of
  the response contains \<^verbatim>\<open>/recaptcha/api2/userverify\<close> or
  \<^verbatim>\<open>/recaptcha/enterprise/userverify\<close> and its body contains \<^verbatim>\<open>"uvresp","\<close>, then a
  text without a line feed, then \<^verbatim>\<open>"\<close>. The token then becomes the text between the
  leftmost such \<^verbatim>\<open>"uvresp","\<close> and the next \<^verbatim>\<open>"\<close>, which holds neither a quote nor a line
  feed. In every other case the solver is left as it was.
\<close>

theorem extract_token_sets_token:
  "if (sublist ''/recaptcha/api2/userverify'' (url r) \<or>
       sublist ''/recaptcha/enterprise/userverify'' (url r)) \<and>
      (\<exists>t. line_feed \<notin> set t \<and> sublist (uvresp_marker @ t @ [quote]) (body r))
   then \<exists>p t q. body r = p @ uvresp_marker @ t @ quote # q \<and>
          quote \<notin> set t \<and> line_feed \<notin> set t \<and>
          (\<forall>p' t' q'. body r = p' @ uvresp_marker @ t' @ quote # q' \<longrightarrow>
             line_feed \<notin> set t' \<longrightarrow> length p \<le> length p') \<and>
          extract_token r s = s\<lparr>token := Some t\<rparr>
   else extract_token r s = s"
proof (cases "search userverify_pattern (url r) = None")
  case True
  then show ?thesis using search_userverify[of "url r"] by (simp add: extract_token_def)
next
  case url: False
  show ?thesis
  proof (cases "search uvresp_pattern (body r)")
    case None
    then show ?thesis using url search_uvresp_None[of "body r"]
      by (auto simp: extract_token_def)
  next
    case (Some caps)
    from search_uvresp_Some[OF Some] obtain p t q where *: "caps = [t]"
      "body r = p @ uvresp_marker @ t @ quote # q" "quote \<notin> set t" "line_feed \<notin> set t"
      "\<forall>p' t' q'. body r = p' @ uvresp_marker @ t' @ quote # q' \<longrightarrow> line_feed \<notin> set t' \<longrightarrow>
         length p \<le> length p'" by blast
    have "extract_token r s = s\<lparr>token := Some t\<rparr>"
      using url Some *(1) by (auto simp: extract_token_def group1_def)
    moreover have "\<exists>t. line_feed \<notin> set t \<and> sublist (uvresp_marker @ t @ [quote]) (body r)"
      using Some search_uvresp_None[of "body r"] by auto
    moreover have "sublist ''/recaptcha/api2/userverify'' (url r) \<or>
       sublist ''/recaptcha/enterprise/userverify'' (url r)"
      using url search_userverify[of "url r"] by simp
    ultimately show ?thesis using * by (simp only: simp_thms if_True) blast
  qed
qed

theorem extract_token_sets_token_witness:
  "sublist ''/recaptcha/api2/userverify'' (url verified) \<and>
   line_feed \<notin> set ''03AGdBq2'' \<and>
   sublist (uvresp_marker @ ''03AGdBq2'' @ [quote]) (body verified) \<and>
   extract_token verified (init [] [] None) = (init [] [] None)\<lparr>token := Some ''03AGdBq2''\<rparr>"
  using extract_token_sets_token[of verified "init [] [] None"] verified_url verified_body
    extract_token_verified[of "init [] [] None"]
  by (simp add: line_feed_def)

text \<open>
  Claim C4 as it is written fails where a line feed stands between \<^verbatim>\<open>"uvresp","\<close> and
  the next \<^verbatim>\<open>"\<close>: the URL matches, the body contains a text of the form
  \<^verbatim>\<open>"uvresp","..."\<close>, and the token is not set, because the dot of the pattern does not
  match a line feed.
\<close>

theorem extract_token_broken_counterexample:
  "sublist ''/recaptcha/api2/userverify'' (url broken) \<and>
   sublist (uvresp_marker @ (''03AG'' @ [line_feed] @ ''dBq2'') @ [quote]) (body broken) \<and>
   extract_token broken (init [] [] None) = init [] [] None \<and>
   token (init [] [] None) = None"
  by (simp add: broken_def sublist_code(3) uvresp_marker_def quote_def line_feed_def init_def
      extract_token_def userverify_pattern_def uvresp_pattern_def search.simps)

text \<open>
  Claim C6. A response whose URL matches neither userverify path, and a response whose
  body has no match for \<^verbatim>\<open>"uvresp","(.*?)"\<close>, leave the solver unchanged. Whenever the
  listener changes the token, the response was a userverify response and the new token
  is a text that stands in its body between \<^verbatim>\<open>"uvresp","\<close> and \<^verbatim>\<open>"\<close>. The listener
  never changes another field.
\<close>

theorem extract_token_frame:
  "(\<not> (sublist ''/recaptcha/api2/userverify'' (url r) \<or>
        sublist ''/recaptcha/enterprise/userverify'' (url r)) \<longrightarrow> extract_token r s = s) \<and>
   (\<not> (\<exists>t. line_feed \<notin> set t \<and> sublist (uvresp_marker @ t @ [quote]) (body r)) \<longrightarrow>
      extract_token r s = s) \<and>
   (token (extract_token r s) \<noteq> token s \<longrightarrow>
      (sublist ''/recaptcha/api2/userverify'' (url r) \<or>
       sublist ''/recaptcha/enterprise/userverify'' (url r)) \<and>
      (\<exists>t. token (extract_token r s) = Some t \<and>
           sublist (uvresp_marker @ t @ [quote]) (body r))) \<and>
   extract_token r s = s\<lparr>token := token (extract_token r s)\<rparr>"
proof -
  have 1: "\<not> (sublist ''/recaptcha/api2/userverify'' (url r) \<or>
        sublist ''/recaptcha/enterprise/userverify'' (url r)) \<Longrightarrow> extract_token r s = s"
    using search_userverify[of "url r"] by (simp add: extract_token_def)
  have 2: "\<not> (\<exists>t. line_feed \<notin> set t \<and> sublist (uvresp_marker @ t @ [quote]) (body r)) \<Longrightarrow>
      extract_token r s = s"
    using search_uvresp_None[of "body r"] by (simp add: extract_token_def)
  have 3: "(sublist ''/recaptcha/api2/userverify'' (url r) \<or>
       sublist ''/recaptcha/enterprise/userverify'' (url r)) \<and>
      (\<exists>t. token (extract_token r s) = Some t \<and>
           sublist (uvresp_marker @ t @ [quote]) (body r))"
    if "token (extract_token r s) \<noteq> token s"
  proof -
    from that have u: "search userverify_pattern (url r) \<noteq> None"
      by (auto simp: extract_token_def split: if_splits)
    with that obtain caps where c: "search uvresp_pattern (body r) = Some caps"
      by (cases "search uvresp_pattern (body r)") (auto simp: extract_token_def)
    from search_uvresp_Some[OF c] obtain p t q where
      "caps = [t]" "body r = p @ uvresp_marker @ t @ quote # q" by blast
    then have "token (extract_token r s) = Some t"
      "sublist (uvresp_marker @ t @ [quote]) (body r)"
      using u c by (auto simp: extract_token_def group1_def sublist_def)
    then show ?thesis using u search_userverify[of "url r"] by blast
  qed
  have 4: "extract_token r s = s\<lparr>token := token (extract_token r s)\<rparr>"
    by (simp add: extract_token_def split: option.splits)
  from 1 2 3 4 show ?thesis by blast
qed

theorem extract_token_frame_witness:
  "\<not> (sublist ''/recaptcha/api2/userverify'' (url reload) \<or>
      sublist ''/recaptcha/enterprise/userverify'' (url reload)) \<and>
   extract_token reload (init [] [] None) = init [] [] None \<and>
   token (extract_token verified (init [] [] None)) \<noteq> token (init [] [] None) \<and>
   token (extract_token verified (init [] [] None)) = Some ''03AGdBq2'' \<and>
   sublist (uvresp_marker @ ''03AGdBq2'' @ [quote]) (body verified)"
  using extract_token_frame[of reload "init [] [] None"]
    extract_token_frame[of verified "init [] [] None"]
    extract_token_verified[of "init [] [] None"] verified_body
  by (simp add: sublist_code(3) init_def reload_def)

section \<open>Runs: what every operation keeps\<close>

declare get_audio_url_poll.simps [simp del]
declare submit_audio_text_poll.simps [simp del]
declare attempts.simps [simp del]

subsection \<open>The history and the listener\<close>

lemma err_simps [simp]: "err (Inl e) = Some e" "err (Inr x) = None"
  by (simp_all add: err_def)

lemma marks_simps [simp]:
  "marks [] = []" "marks (xs @ ys) = marks xs @ marks ys" "marks (e # es) = mark_of e @ marks es"
  by (simp_all add: marks_def)

lemma callbacks_simps [simp]:
  "callbacks [] = []" "callbacks (xs @ ys) = callbacks xs @ callbacks ys"
  "callbacks (e # es) = callback e @ callbacks es"
  by (simp_all add: callbacks_def)

lemma rate_limits_simps [simp]:
  "rate_limits [] = 0" "rate_limits (xs @ ys) = rate_limits xs + rate_limits ys"
  "rate_limits (e # es) = (if rate_limited e then 1 else 0) + rate_limits es"
  by (simp_all add: rate_limits_def)

lemma callbacks_map_Callback [simp]: "callbacks (map Callback rs) = rs"
  by (induction rs) simp_all

lemma marks_map_Callback [simp]: "marks (map Callback rs) = []"
  by (induction rs) simp_all

lemma rate_limits_map_Callback [simp]: "rate_limits (map Callback rs) = 0"
  by (induction rs) simp_all


lemma extract_token_fields [simp]:
  "retries (extract_token r s) = retries s"
  "listeners (extract_token r s) = listeners s"
  "history (extract_token r s) = history s"
  "feed (extract_token r s) = feed s"
  by (simp_all add: extract_token_def split: option.splits)

lemma extract_token_update:
  "extract_token r (s\<lparr>history := h\<rparr>) = (extract_token r s)\<lparr>history := h\<rparr>"
  "extract_token r (s\<lparr>feed := f\<rparr>) = (extract_token r s)\<lparr>feed := f\<rparr>"
  by (simp_all add: extract_token_def split: option.splits)

lemma fold_extract_token_fields [simp]:
  "retries (fold extract_token rs s) = retries s"
  "listeners (fold extract_token rs s) = listeners s"
  "history (fold extract_token rs s) = history s"
  "feed (fold extract_token rs s) = feed s"
  by (induction rs arbitrary: s) simp_all

lemma token_extract_token_cong:
  "token s = token t \<Longrightarrow> token (extract_token r s) = token (extract_token r t)"
  by (simp add: extract_token_def split: option.splits)

lemma token_fold_extract_token_cong:
  "token s = token t \<Longrightarrow> token (fold extract_token rs s) = token (fold extract_token rs t)"
proof (induction rs arbitrary: s t)
  case Nil
  then show ?case by simp
next
  case (Cons r rs)
  have "token (extract_token r s) = token (extract_token r t)"
    using Cons.prems by (rule token_extract_token_cong)
  then have "token (fold extract_token rs (extract_token r s)) =
      token (fold extract_token rs (extract_token r t))"
    by (rule Cons.IH)
  then show ?case by simp
qed

lemma fold_emit:
  "fold emit rs s =
     (if (''response'', Extract_token) \<in> set (listeners s)
      then (fold extract_token rs s)\<lparr>history := history s @ map Callback rs\<rparr>
      else s)"
proof (induction rs arbitrary: s)
  case Nil
  then show ?case by simp
next
  case (Cons r rs)
  have *: "fold extract_token rs (extract_token r s\<lparr>history := h\<rparr>) =
      (fold extract_token rs (extract_token r s))\<lparr>history := h\<rparr>" for h
    by (induction rs arbitrary: s r) (simp_all add: extract_token_update)
  have "fold emit (r # rs) s = fold emit rs (emit r s)"
    by simp
  also have "\<dots> =
      (if (''response'', Extract_token) \<in> set (listeners (emit r s))
       then (fold extract_token rs (emit r s))\<lparr>history := history (emit r s) @ map Callback rs\<rparr>
       else emit r s)"
    by (rule Cons.IH)
  also have "\<dots> =
      (if (''response'', Extract_token) \<in> set (listeners s)
       then (fold extract_token (r # rs) s)\<lparr>history := history s @ map Callback (r # rs)\<rparr>
       else s)"
    by (simp add: emit_def extract_token_update *)
  finally show ?case .
qed

lemma fold_extract_token_feed:
  "fold extract_token rs (s\<lparr>feed := f\<rparr>) = (fold extract_token rs s)\<lparr>feed := f\<rparr>"
  by (induction rs arbitrary: s) (simp_all add: extract_token_update)

lemma browser_call_Cons:
  assumes "feed s = snap # rest"
  shows "browser_call c s =
     Some (case failure snap of None \<Rightarrow> Inr snap | Some name \<Rightarrow> Inl (Raised name),
       if (''response'', Extract_token) \<in> set (listeners s)
       then (fold extract_token (emitted snap) s)
              \<lparr>feed := rest, history := history s @ map Callback (emitted snap) @ [Call c snap]\<rparr>
       else s\<lparr>feed := rest, history := history s @ [Call c snap]\<rparr>)"
proof (cases "failure snap")
  case None
  then show ?thesis using assms
    by (simp add: browser_call_def answer_def ret_def raise_def fold_emit
        fold_extract_token_feed)
next
  case (Some name)
  then show ?thesis using assms
    by (simp add: browser_call_def answer_def ret_def raise_def fold_emit
        fold_extract_token_feed)
qed

lemma browser_call_SomeE:
  assumes "browser_call c s = Some (res, s')"
  obtains snap rest where "feed s = snap # rest"
    and "res = (case failure snap of None \<Rightarrow> Inr snap | Some name \<Rightarrow> Inl (Raised name))"
    and "s' = (if (''response'', Extract_token) \<in> set (listeners s)
              then (fold extract_token (emitted snap) s)
                     \<lparr>feed := rest, history := history s @ map Callback (emitted snap) @ [Call c snap]\<rparr>
              else s\<lparr>feed := rest, history := history s @ [Call c snap]\<rparr>)"
proof (cases "feed s")
  case Nil
  with assms show ?thesis by (simp add: browser_call_def)
next
  case (Cons snap rest)
  from assms have "Some (res, s') = browser_call c s" by simp
  then show ?thesis
    unfolding browser_call_Cons[OF Cons] using Cons that by simp
qed

subsection \<open>Runs compose\<close>

text \<open>
  \<open>sound ms s e s'\<close> is what every stretch of a run keeps: the solver has \<open>moved\<close>, and
  if the stretch raised \<open>e\<close>, the last entry of the history is the call that explains it.
  A stretch that returns followed by a sound stretch is sound.
\<close>

lemma moved_refl: "moved [] 0 s s"
  by (simp add: moved_def)

lemma moved_trans:
  assumes "moved ms1 k1 s s1" and "moved ms2 k2 s1 s'"
  shows "moved (ms1 @ ms2) (k1 + k2) s s'"
proof -
  from assms(1) obtain new1 where 1: "retries s1 = retries s" "listeners s1 = listeners s"
    "history s1 = history s @ new1" "token s1 = token (fold extract_token (callbacks new1) s)"
    "marks new1 = ms1" "rate_limits new1 = k1"
    unfolding moved_def by blast
  from assms(2) obtain new2 where 2: "retries s' = retries s1" "listeners s' = listeners s1"
    "history s' = history s1 @ new2" "token s' = token (fold extract_token (callbacks new2) s1)"
    "marks new2 = ms2" "rate_limits new2 = k2"
    unfolding moved_def by blast
  have "token (fold extract_token (callbacks new2) s1) =
      token (fold extract_token (callbacks new2) (fold extract_token (callbacks new1) s))"
    using 1(4) by (rule token_fold_extract_token_cong)
  then have "token s' = token (fold extract_token (callbacks (new1 @ new2)) s)"
    using 2(4) by simp
  moreover have "history s' = history s @ (new1 @ new2)"
    using 1(3) 2(3) by simp
  moreover have "marks (new1 @ new2) = ms1 @ ms2" "rate_limits (new1 @ new2) = k1 + k2"
    using 1(5,6) 2(5,6) by simp_all
  ultimately show ?thesis
    unfolding moved_def using 1(1,2) 2(1,2) by metis
qed

lemma sound_refl: "sound [] s None s"
  by (simp add: sound_def moved_refl ended_def)

lemma sound_trans:
  assumes "sound ms1 s None s1" and "sound ms2 s1 e s'"
  shows "sound (ms1 @ ms2) s e s'"
  using assms moved_trans[of ms1 0 s s1 ms2 _ s'] by (simp add: sound_def)

lemma sound_trans0: "sound [] s None s1 \<Longrightarrow> sound ms s1 e s' \<Longrightarrow> sound ms s e s'"
  using sound_trans[of "[]" s s1 ms e s'] by simp

lemma ret_Some: "ret x s = Some (res, s') \<longleftrightarrow> res = Inr x \<and> s' = s"
  by (auto simp: ret_def)

lemma raise_Some: "raise e s = Some (res, s') \<longleftrightarrow> res = Inl e \<and> s' = s"
  by (auto simp: raise_def)

lemma sound_bind:
  assumes "bind m f = Some (res, s')"
    and "\<And>r s1. m = Some (r, s1) \<Longrightarrow> sound [] s (err r) s1"
    and "\<And>x s1. m = Some (Inr x, s1) \<Longrightarrow> f x s1 = Some (res, s') \<Longrightarrow> sound ms s1 (err res) s'"
  shows "(\<exists>e. res = Inl e \<and> sound [] s (Some e) s') \<or> sound ms s (err res) s'"
proof -
  from assms(1) consider e where "m = Some (Inl e, s')" "res = Inl e"
    | x s1 where "m = Some (Inr x, s1)" "f x s1 = Some (res, s')"
    unfolding bind_Some by blast
  then show ?thesis
  proof cases
    case 1
    then show ?thesis using assms(2)[of "Inl e" s'] by simp
  next
    case 2
    then show ?thesis using assms(2)[of "Inr x" s1] assms(3)[of x s1] sound_trans0 by simp
  qed
qed

lemma sound_bind0:
  assumes "bind m f = Some (res, s')"
    and "\<And>r s1. m = Some (r, s1) \<Longrightarrow> sound [] s (err r) s1"
    and "\<And>x s1. m = Some (Inr x, s1) \<Longrightarrow> f x s1 = Some (res, s') \<Longrightarrow> sound [] s1 (err res) s'"
  shows "sound [] s (err res) s'"
proof -
  have "(\<exists>e. res = Inl e \<and> sound [] s (Some e) s') \<or> sound [] s (err res) s'"
    using assms(1)
  proof (rule sound_bind)
    show "sound [] s (err r) s1" if "m = Some (r, s1)" for r s1
      using that by (rule assms(2))
    show "sound [] s1 (err res) s'" if "m = Some (Inr x, s1)" "f x s1 = Some (res, s')" for x s1
      using that by (rule assms(3))
  qed
  then show ?thesis by auto
qed


lemma moved_call:
  assumes "feed s = snap # rest"
    and "s' = (if (''response'', Extract_token) \<in> set (listeners s)
              then (fold extract_token (emitted snap) s)
                     \<lparr>feed := rest, history := history s @ map Callback (emitted snap) @ [Call c snap]\<rparr>
              else s\<lparr>feed := rest, history := history s @ [Call c snap]\<rparr>)"
  shows "moved (call_marks c) (if rate_limited (Call c snap) then 1 else 0) s s'"
proof (cases "(''response'', Extract_token) \<in> set (listeners s)")
  case True
  then have s': "s' = (fold extract_token (emitted snap) s)
      \<lparr>feed := rest, history := history s @ map Callback (emitted snap) @ [Call c snap]\<rparr>"
    using assms(2) by simp
  show ?thesis unfolding moved_def s'
    by (intro conjI exI[of _ "map Callback (emitted snap) @ [Call c snap]"]) simp_all
next
  case False
  then have s': "s' = s\<lparr>feed := rest, history := history s @ [Call c snap]\<rparr>"
    using assms(2) by simp
  show ?thesis unfolding moved_def s'
    by (intro conjI exI[of _ "[Call c snap]"]) simp_all
qed

lemma browser_call_last:
  assumes "browser_call c s = Some (res, s')"
  shows "\<exists>snap. history s' \<noteq> [] \<and> last (history s') = Call c snap \<and>
           res = (case failure snap of None \<Rightarrow> Inr snap | Some name \<Rightarrow> Inl (Raised name)) \<and>
           moved (call_marks c) (if rate_limited (Call c snap) then 1 else 0) s s'"
proof -
  from assms obtain snap rest where *: "feed s = snap # rest"
    "res = (case failure snap of None \<Rightarrow> Inr snap | Some name \<Rightarrow> Inl (Raised name))"
    "s' = (if (''response'', Extract_token) \<in> set (listeners s)
              then (fold extract_token (emitted snap) s)
                     \<lparr>feed := rest, history := history s @ map Callback (emitted snap) @ [Call c snap]\<rparr>
              else s\<lparr>feed := rest, history := history s @ [Call c snap]\<rparr>)"
    by (rule browser_call_SomeE)
  from *(3) have "history s' \<noteq> [] \<and> last (history s') = Call c snap"
    by (simp split: if_splits)
  with *(2) moved_call[OF *(1,3)] show ?thesis by blast
qed

lemma service_call_last:
  assumes "service_call c s = Some (res, s')"
  shows "\<exists>snap. history s' \<noteq> [] \<and> last (history s') = Call c snap \<and>
           res = (case failure snap of None \<Rightarrow> Inr snap | Some name \<Rightarrow> Inl (Raised name)) \<and>
           moved (call_marks c) (if rate_limited (Call c snap) then 1 else 0) s s'"
proof -
  from assms obtain snap rest where *: "feed s = snap # rest"
    "res = (case failure snap of None \<Rightarrow> Inr snap | Some name \<Rightarrow> Inl (Raised name))"
    "s' = s\<lparr>feed := rest, history := history s @ [Call c snap]\<rparr>"
    by (auto simp: service_call_def answer_def ret_def raise_def Let_def
        split: list.splits option.splits)
  have "moved (call_marks c) (if rate_limited (Call c snap) then 1 else 0) s s'"
    unfolding moved_def *(3) by (intro conjI exI[of _ "[Call c snap]"]) simp_all
  with * show ?thesis by auto
qed



subsection \<open>The calls are sound\<close>

lemma ended_call:
  assumes "history s' \<noteq> []" and "last (history s') = Call c snap"
    and "res = (case failure snap of None \<Rightarrow> Inr snap | Some name \<Rightarrow> Inl (Raised name))"
  shows "ended (err res) s'"
  using assms by (cases "failure snap") (simp_all add: ended_def)

lemma browser_call_sound:
  assumes "browser_call c s = Some (res, s')"
    and "c \<noteq> Is_visible (Get_by_text ''Try again later'')"
  shows "sound (call_marks c) s (err res) s'"
proof -
  from browser_call_last[OF assms(1)] obtain snap where *: "history s' \<noteq> []"
    "last (history s') = Call c snap"
    "res = (case failure snap of None \<Rightarrow> Inr snap | Some name \<Rightarrow> Inl (Raised name))"
    "moved (call_marks c) (if rate_limited (Call c snap) then 1 else 0) s s'" by blast
  have "err res \<noteq> Some RecaptchaRateLimitError" "err res \<noteq> Some RecaptchaSolveError"
    using *(3) by (cases "failure snap"; simp)+
  with * assms(2) ended_call[OF *(1,2,3)] show ?thesis
    by (simp add: sound_def)
qed

lemma service_call_sound:
  assumes "service_call c s = Some (res, s')"
    and "c \<noteq> Is_visible (Get_by_text ''Try again later'')"
  shows "sound (call_marks c) s (err res) s'"
proof -
  from service_call_last[OF assms(1)] obtain snap where *: "history s' \<noteq> []"
    "last (history s') = Call c snap"
    "res = (case failure snap of None \<Rightarrow> Inr snap | Some name \<Rightarrow> Inl (Raised name))"
    "moved (call_marks c) (if rate_limited (Call c snap) then 1 else 0) s s'" by blast
  have "err res \<noteq> Some RecaptchaRateLimitError" "err res \<noteq> Some RecaptchaSolveError"
    using *(3) by (cases "failure snap"; simp)+
  with * assms(2) ended_call[OF *(1,2,3)] show ?thesis
    by (simp add: sound_def)
qed

lemma bind_ret_Some:
  "bind m (\<lambda>x. ret (g x)) = Some (res, s') \<longleftrightarrow>
     (\<exists>e. m = Some (Inl e, s') \<and> res = Inl e) \<or> (\<exists>x. m = Some (Inr x, s') \<and> res = Inr (g x))"
  by (auto simp: bind_Some ret_def)

lemma answered_sound:
  assumes "bind (browser_call c s) (\<lambda>snap. ret (g snap)) = Some (res, s')"
    and "c \<noteq> Is_visible (Get_by_text ''Try again later'')"
  shows "sound (call_marks c) s (err res) s'"
  using assms browser_call_sound[of c s _ s'] unfolding bind_ret_Some by fastforce

lemma wait_for_load_state_sound:
  "wait_for_load_state st s = Some (res, s') \<Longrightarrow> sound [] s (err res) s'"
  unfolding wait_for_load_state_def by (drule answered_sound) (simp_all add: call_marks_def)

lemma wait_for_timeout_sound:
  "wait_for_timeout ms s = Some (res, s') \<Longrightarrow> sound [] s (err res) s'"
  unfolding wait_for_timeout_def by (drule answered_sound) (simp_all add: call_marks_def)

lemma get_recaptcha_frame_sound:
  "get_recaptcha_frame s = Some (res, s') \<Longrightarrow> sound [] s (err res) s'"
  unfolding get_recaptcha_frame_def by (drule answered_sound) (simp_all add: call_marks_def)

lemma get_recaptcha_checkbox_sound:
  "get_recaptcha_checkbox s = Some (res, s') \<Longrightarrow> sound [] s (err res) s'"
  unfolding get_recaptcha_checkbox_def by (drule answered_sound) (simp_all add: call_marks_def)

lemma click_sound:
  "click l s = Some (res, s') \<Longrightarrow> sound (call_marks (Click l)) s (err res) s'"
  unfolding click_def by (drule answered_sound) simp_all

lemma fill_sound:
  "fill l text s = Some (res, s') \<Longrightarrow> sound [] s (err res) s'"
  unfolding fill_def by (drule answered_sound) (simp_all add: call_marks_def)

lemma get_attribute_sound:
  "get_attribute l name s = Some (res, s') \<Longrightarrow> sound [] s (err res) s'"
  unfolding get_attribute_def by (drule answered_sound) (simp_all add: call_marks_def)

lemma is_checked_sound:
  "is_checked l s = Some (res, s') \<Longrightarrow> sound [] s (err res) s'"
  unfolding is_checked_def by (drule answered_sound) (simp_all add: call_marks_def)

lemma is_visible_sound:
  "is_visible l s = Some (res, s') \<Longrightarrow> l \<noteq> Get_by_text ''Try again later'' \<Longrightarrow>
     sound (call_marks (Is_visible l)) s (err res) s'"
  unfolding is_visible_def by (drule answered_sound) simp_all

lemma is_visible_plain:
  assumes "is_visible (Get_by_text txt) s = Some (res, s')"
    and "txt \<noteq> ''Try again later''"
  shows "sound [] s (err res) s'"
  using is_visible_sound[OF assms(1)] assms(2) by (simp add: call_marks_def)

lemma randint_sound:
  "randint lo hi s = Some (res, s') \<Longrightarrow> sound [] s (err res) s'"
  unfolding randint_def bind_ret_Some
  using service_call_sound[of "Randint lo hi" s _ s'] by (fastforce simp: call_marks_def)

lemma is_checked_found:
  assumes "is_checked Recaptcha_checkbox s = Some (Inr b, s')"
  shows "history s' \<noteq> [] \<and>
     (if b then found_checked (last (history s')) else found_unchecked (last (history s')))"
proof -
  from assms obtain snap where 1: "browser_call (Is_checked Recaptcha_checkbox) s = Some (Inr snap, s')"
    and b: "b = truth snap"
    unfolding is_checked_def bind_ret_Some by auto
  from browser_call_last[OF 1] obtain snap' where *: "history s' \<noteq> []"
    "last (history s') = Call (Is_checked Recaptcha_checkbox) snap'"
    "Inr snap = (case failure snap' of None \<Rightarrow> Inr snap' | Some name \<Rightarrow> Inl (Raised name))"
    by blast
  from *(3) have "failure snap' = None" "snap' = snap"
    by (cases "failure snap'"; simp)+
  with * b show ?thesis by simp
qed

lemma is_visible_later:
  assumes "is_visible (Get_by_text ''Try again later'') s = Some (res, s')"
  shows "if res = Inr True then sound [] s (Some RecaptchaRateLimitError) s'
         else sound [] s (err res) s'"
proof -
  let ?c = "Is_visible (Get_by_text ''Try again later'')"
  from assms consider e where "browser_call ?c s = Some (Inl e, s')" "res = Inl e"
    | snap where "browser_call ?c s = Some (Inr snap, s')" "res = Inr (truth snap)"
    unfolding is_visible_def bind_ret_Some by blast
  then show ?thesis
  proof cases
    case 1
    from browser_call_last[OF 1(1)] obtain snap where *: "history s' \<noteq> []"
      "last (history s') = Call ?c snap"
      "Inl e = (case failure snap of None \<Rightarrow> Inr snap | Some name \<Rightarrow> Inl (Raised name))"
      "moved (call_marks ?c) (if rate_limited (Call ?c snap) then 1 else 0) s s'" by blast
    from *(3) obtain name where "failure snap = Some name" "e = Raised name"
      by (cases "failure snap") simp_all
    with * 1 show ?thesis by (simp add: sound_def ended_def call_marks_def)
  next
    case 2
    from browser_call_last[OF 2(1)] obtain snap' where *: "history s' \<noteq> []"
      "last (history s') = Call ?c snap'"
      "Inr snap = (case failure snap' of None \<Rightarrow> Inr snap' | Some name \<Rightarrow> Inl (Raised name))"
      "moved (call_marks ?c) (if rate_limited (Call ?c snap') then 1 else 0) s s'" by blast
    from *(3) have "failure snap' = None" "snap' = snap"
      by (cases "failure snap'"; simp)+
    with * 2 show ?thesis
      by (cases "truth snap") (simp_all add: sound_def ended_def call_marks_def)
  qed
qed

lemma rate_limit_check:
  assumes "bind (is_visible (Get_by_text ''Try again later'') s)
             (\<lambda>later s. if later then raise RecaptchaRateLimitError s else g s) = Some (res, s')"
    and "\<And>s1. is_visible (Get_by_text ''Try again later'') s = Some (Inr False, s1) \<Longrightarrow>
           g s1 = Some (res, s') \<Longrightarrow> sound [] s1 (err res) s'"
  shows "sound [] s (err res) s'"
proof -
  let ?m = "is_visible (Get_by_text ''Try again later'') s"
  from assms(1) consider e where "?m = Some (Inl e, s')" "res = Inl e"
    | "?m = Some (Inr True, s')" "res = Inl RecaptchaRateLimitError"
    | s1 where "?m = Some (Inr False, s1)" "g s1 = Some (res, s')"
    unfolding bind_Some by (auto simp: raise_def split: if_splits)
  then show ?thesis
  proof cases
    case 1
    then show ?thesis using is_visible_later[of s "Inl e" s'] by simp
  next
    case 2
    then show ?thesis using is_visible_later[of s "Inr True" s'] by simp
  next
    case 3
    then show ?thesis
      using is_visible_later[of s "Inr False" s1] assms(2)[of s1] sound_trans0 by simp
  qed
qed


subsection \<open>The two polls\<close>

text \<open>
  By induction along the polls. Sighting the rate limit message is the one call that is
  sound only together with the \<^verbatim>\<open>raise\<close> that follows it.
\<close>

lemma get_audio_url_poll_sound:
  "get_audio_url_poll s = Some (res, s') \<Longrightarrow> sound [] s (err res) s'"
proof (induction s arbitrary: res s' rule: get_audio_url_poll.induct)
  case (1 s)
  from "1.prems" have run:
    "bind (is_visible (Get_by_text ''Press PLAY to listen'') s) (\<lambda>play s.
       if play then ret () s
       else
         bind (is_visible (Get_by_text ''Try again later'') s) (\<lambda>later s.
           if later then raise RecaptchaRateLimitError s
           else bind (wait_for_timeout 100 s) (\<lambda>u. get_audio_url_poll))) = Some (res, s')"
    by (subst (asm) get_audio_url_poll.simps)
  show ?case using run
  proof (rule sound_bind0)
    fix r s1
    assume "is_visible (Get_by_text ''Press PLAY to listen'') s = Some (r, s1)"
    then show "sound [] s (err r) s1"
      by (rule is_visible_plain) simp
  next
    fix play s1
    assume a: "is_visible (Get_by_text ''Press PLAY to listen'') s = Some (Inr play, s1)"
      and b: "(if play then ret () s1
         else bind (is_visible (Get_by_text ''Try again later'') s1) (\<lambda>later s.
           if later then raise RecaptchaRateLimitError s
           else bind (wait_for_timeout 100 s) (\<lambda>u. get_audio_url_poll))) = Some (res, s')"
    show "sound [] s1 (err res) s'"
    proof (cases play)
      case True
      with b show ?thesis by (simp add: ret_Some sound_refl)
    next
      case False
      with b have "bind (is_visible (Get_by_text ''Try again later'') s1) (\<lambda>later s.
           if later then raise RecaptchaRateLimitError s
           else bind (wait_for_timeout 100 s) (\<lambda>u. get_audio_url_poll)) = Some (res, s')"
        by simp
      then show ?thesis
      proof (rule rate_limit_check)
        fix s2
        assume c: "is_visible (Get_by_text ''Try again later'') s1 = Some (Inr False, s2)"
          and d: "bind (wait_for_timeout 100 s2) (\<lambda>u. get_audio_url_poll) = Some (res, s')"
        show "sound [] s2 (err res) s'" using d
        proof (rule sound_bind0)
          fix r s3 assume "wait_for_timeout 100 s2 = Some (r, s3)"
          then show "sound [] s2 (err r) s3" by (rule wait_for_timeout_sound)
        next
          fix u s3
          assume "wait_for_timeout 100 s2 = Some (Inr u, s3)"
            and "get_audio_url_poll s3 = Some (res, s')"
          with a False c show "sound [] s3 (err res) s'"
            by (intro "1.IH"[of play s1 False s2 u s3]) simp_all
        qed
      qed
    qed
  qed
qed

lemma more_or_checked_sound:
  assumes "bind (is_visible
                  (Get_by_text ''Multiple correct solutions required - please solve more.'') s)
             (\<lambda>more s. if more then ret True s else is_checked Recaptcha_checkbox s) = Some (r, s1)"
  shows "sound [] s (err r) s1"
  using assms
proof (rule sound_bind0)
  fix r' s0
  assume "is_visible (Get_by_text ''Multiple correct solutions required - please solve more.'') s
      = Some (r', s0)"
  then show "sound [] s (err r') s0"
    by (rule is_visible_plain) simp
next
  fix more s0
  assume "(if more then ret True s0 else is_checked Recaptcha_checkbox s0) = Some (r, s1)"
  then show "sound [] s0 (err r) s1"
    by (cases more) (simp_all add: ret_Some sound_refl is_checked_sound)
qed

lemma submit_audio_text_poll_sound:
  "submit_audio_text_poll s = Some (res, s') \<Longrightarrow> sound [] s (err res) s'"
proof (induction s arbitrary: res s' rule: submit_audio_text_poll.induct)
  case (1 s)
  let ?m = "bind (is_visible
                  (Get_by_text ''Multiple correct solutions required - please solve more.'') s)
             (\<lambda>more s. if more then ret True s else is_checked Recaptcha_checkbox s)"
  from "1.prems" have run:
    "bind ?m (\<lambda>done s.
         if done then ret () s
         else
           bind (is_visible (Get_by_text ''Try again later'') s) (\<lambda>later s.
             if later then raise RecaptchaRateLimitError s
             else bind (wait_for_timeout 100 s) (\<lambda>u. submit_audio_text_poll))) = Some (res, s')"
    by (subst (asm) submit_audio_text_poll.simps)
  show ?case using run
  proof (rule sound_bind0)
    fix r s1
    assume "?m = Some (r, s1)"
    then show "sound [] s (err r) s1" by (rule more_or_checked_sound)
  next
    fix finished s1
    assume a: "?m = Some (Inr finished, s1)"
      and b: "(if finished then ret () s1
         else bind (is_visible (Get_by_text ''Try again later'') s1) (\<lambda>later s.
           if later then raise RecaptchaRateLimitError s
           else bind (wait_for_timeout 100 s) (\<lambda>u. submit_audio_text_poll))) = Some (res, s')"
    show "sound [] s1 (err res) s'"
    proof (cases finished)
      case True
      with b show ?thesis by (simp add: ret_Some sound_refl)
    next
      case False
      with b have "bind (is_visible (Get_by_text ''Try again later'') s1) (\<lambda>later s.
           if later then raise RecaptchaRateLimitError s
           else bind (wait_for_timeout 100 s) (\<lambda>u. submit_audio_text_poll)) = Some (res, s')"
        by simp
      then show ?thesis
      proof (rule rate_limit_check)
        fix s2
        assume c: "is_visible (Get_by_text ''Try again later'') s1 = Some (Inr False, s2)"
          and d: "bind (wait_for_timeout 100 s2) (\<lambda>u. submit_audio_text_poll) = Some (res, s')"
        show "sound [] s2 (err res) s'" using d
        proof (rule sound_bind0)
          fix r s3 assume "wait_for_timeout 100 s2 = Some (r, s3)"
          then show "sound [] s2 (err r) s3" by (rule wait_for_timeout_sound)
        next
          fix u s3
          assume "wait_for_timeout 100 s2 = Some (Inr u, s3)"
            and "submit_audio_text_poll s3 = Some (res, s')"
          with a False c show "sound [] s3 (err res) s'"
            by (intro "1.IH"[of finished s1 False s2 u s3]) simp_all
        qed
      qed
    qed
  qed
qed

subsection \<open>The private methods\<close>

lemma bind_assoc: "bind (bind m f) g = bind m (\<lambda>x s. bind (f x s) g)"
  by (auto simp: bind_def split: option.splits sum.splits)

lemma bind_Inr:
  "bind m f = Some (Inr y, s') \<longleftrightarrow> (\<exists>x s1. m = Some (Inr x, s1) \<and> f x s1 = Some (Inr y, s'))"
  by (auto simp: bind_Some)

lemma sound_bind_marks:
  assumes "bind m f = Some (res, s')"
    and "\<And>r s1. m = Some (r, s1) \<Longrightarrow> sound ms s (err r) s1"
    and "\<And>x s1. m = Some (Inr x, s1) \<Longrightarrow> f x s1 = Some (res, s') \<Longrightarrow> sound [] s1 (err res) s'"
  shows "sound ms s (err res) s'"
proof -
  from assms(1) consider e where "m = Some (Inl e, s')" "res = Inl e"
    | x s1 where "m = Some (Inr x, s1)" "f x s1 = Some (res, s')"
    unfolding bind_Some by blast
  then show ?thesis
  proof cases
    case 1
    then show ?thesis using assms(2)[of "Inl e" s'] by simp
  next
    case 2
    then show ?thesis
      using assms(2)[of "Inr x" s1] assms(3)[of x s1] sound_trans[of ms s s1 "[]" "err res" s']
      by simp
  qed
qed

lemma random_delay_sound: "random_delay s = Some (res, s') \<Longrightarrow> sound [] s (err res) s'"
  unfolding random_delay_def
  by (erule sound_bind0) (auto dest: randint_sound wait_for_timeout_sound)

lemma get_audio_url_sound:
  assumes "get_audio_url s = Some (res, s')"
  shows "sound [Attempt] s (err res) s'"
  using assms unfolding get_audio_url_def
proof (rule sound_bind_marks)
  fix r s1
  assume "is_visible (Get_by_role ''button'' ''Get an audio challenge'') s = Some (r, s1)"
  then show "sound [Attempt] s (err r) s1"
    using is_visible_sound[of "Get_by_role ''button'' ''Get an audio challenge''" s r s1]
    by (simp add: call_marks_def)
next
  fix shown s1
  assume "bind (if shown then click (Get_by_role ''button'' ''Get an audio challenge'') s1
           else ret () s1) (\<lambda>u s.
     bind (get_audio_url_poll s) (\<lambda>u s.
     get_attribute (Get_by_role ''link'' ''Alternatively, download audio as MP3'') ''href'' s))
     = Some (res, s')"
  then show "sound [] s1 (err res) s'"
  proof (rule sound_bind0)
    fix r s2
    assume "(if shown then click (Get_by_role ''button'' ''Get an audio challenge'') s1
           else ret () s1) = Some (r, s2)"
    then show "sound [] s1 (err r) s2"
      using click_sound[of "Get_by_role ''button'' ''Get an audio challenge''" s1 r s2]
      by (cases shown) (simp_all add: call_marks_def ret_Some sound_refl)
  next
    fix u s2
    assume "bind (get_audio_url_poll s2) (\<lambda>u s.
       get_attribute (Get_by_role ''link'' ''Alternatively, download audio as MP3'') ''href'' s)
       = Some (res, s')"
    then show "sound [] s2 (err res) s'"
      by (rule sound_bind0) (auto dest: get_audio_url_poll_sound get_attribute_sound)
  qed
qed

lemma getitem_error: "getitem v k = Inl e \<Longrightarrow> e = KeyError \<or> e = TypeError"
  by (cases v) (auto split: option.splits)

lemma getitem0_error: "getitem0 v = Inl e \<Longrightarrow> e = KeyError \<or> e = TypeError \<or> e = IndexError"
  by (induction v rule: getitem0.induct) auto

lemma subscripts_sound:
  assumes "bind (lift (getitem v ''alternative'') s) (\<lambda>alternatives s.
     bind (lift (getitem0 alternatives) s) (\<lambda>first s.
     lift (getitem first ''transcript'') s)) = Some (res, s')"
    and "history s \<noteq> []" and "recognised (last (history s))"
  shows "sound [] s (err res) s'"
proof -
  from assms(1) have s': "s' = s"
    by (auto simp: bind_Some lift_def ret_def raise_def split: sum.splits)
  have "e = KeyError \<or> e = TypeError \<or> e = IndexError" if "res = Inl e" for e
    using assms(1) that getitem_error getitem0_error
    by (auto simp: bind_Some lift_def ret_def raise_def split: sum.splits)
  then show ?thesis using assms(2,3) s'
    by (cases res) (auto simp: sound_def ended_def moved_refl)
qed

lemma service_call_recognised:
  assumes "service_call (Recognize_google audio_data) s = Some (Inr answered, s')"
  shows "history s' \<noteq> [] \<and> recognised (last (history s'))"
proof -
  from service_call_last[OF assms] obtain snap where *: "history s' \<noteq> []"
    "last (history s') = Call (Recognize_google audio_data) snap"
    "Inr answered = (case failure snap of None \<Rightarrow> Inr snap | Some name \<Rightarrow> Inl (Raised name))"
    by blast
  from *(3) have "failure snap = None" by (cases "failure snap") simp_all
  with * show ?thesis by simp
qed

lemma service_call_plain:
  assumes "service_call c s = Some (res, s')" and "call_marks c = []"
    and "c \<noteq> Is_visible (Get_by_text ''Try again later'')"
  shows "sound [] s (err res) s'"
  using service_call_sound[OF assms(1,3)] assms(2) by simp

lemma convert_audio_to_text_sound:
  assumes "convert_audio_to_text audio_url s = Some (res, s')"
  shows "sound [] s (err res) s'"
  using assms unfolding convert_audio_to_text_def
proof (rule sound_bind0)
  fix r s1 assume "service_call (Http_get audio_url) s = Some (r, s1)"
  then show "sound [] s (err r) s1" by (rule service_call_plain) (simp_all add: call_marks_def)
next
  fix response s1
  assume "bind (service_call (From_mp3 (content response)) s1) (\<lambda>audio s.
     bind (service_call (Export (content audio) ''wav'') s) (\<lambda>wav_audio s.
     bind (service_call (Record_audio (content wav_audio)) s) (\<lambda>audio_data s.
     bind (service_call (Recognize_google (content audio_data)) s) (\<lambda>text s.
     bind (lift (getitem (api text) ''alternative'') s) (\<lambda>alternatives s.
     bind (lift (getitem0 alternatives) s) (\<lambda>first s.
     lift (getitem first ''transcript'') s)))))) = Some (res, s')"
  then show "sound [] s1 (err res) s'"
  proof (rule sound_bind0)
    fix r s2 assume "service_call (From_mp3 (content response)) s1 = Some (r, s2)"
    then show "sound [] s1 (err r) s2" by (rule service_call_plain) (simp_all add: call_marks_def)
  next
    fix audio s2
    assume "bind (service_call (Export (content audio) ''wav'') s2) (\<lambda>wav_audio s.
     bind (service_call (Record_audio (content wav_audio)) s) (\<lambda>audio_data s.
     bind (service_call (Recognize_google (content audio_data)) s) (\<lambda>text s.
     bind (lift (getitem (api text) ''alternative'') s) (\<lambda>alternatives s.
     bind (lift (getitem0 alternatives) s) (\<lambda>first s.
     lift (getitem first ''transcript'') s))))) = Some (res, s')"
    then show "sound [] s2 (err res) s'"
    proof (rule sound_bind0)
      fix r s3 assume "service_call (Export (content audio) ''wav'') s2 = Some (r, s3)"
      then show "sound [] s2 (err r) s3"
        by (rule service_call_plain) (simp_all add: call_marks_def)
    next
      fix wav_audio s3
      assume "bind (service_call (Record_audio (content wav_audio)) s3) (\<lambda>audio_data s.
       bind (service_call (Recognize_google (content audio_data)) s) (\<lambda>text s.
       bind (lift (getitem (api text) ''alternative'') s) (\<lambda>alternatives s.
       bind (lift (getitem0 alternatives) s) (\<lambda>first s.
       lift (getitem first ''transcript'') s)))) = Some (res, s')"
      then show "sound [] s3 (err res) s'"
      proof (rule sound_bind0)
        fix r s4 assume "service_call (Record_audio (content wav_audio)) s3 = Some (r, s4)"
        then show "sound [] s3 (err r) s4"
          by (rule service_call_plain) (simp_all add: call_marks_def)
      next
        fix audio_data s4
        assume "bind (service_call (Recognize_google (content audio_data)) s4) (\<lambda>text s.
         bind (lift (getitem (api text) ''alternative'') s) (\<lambda>alternatives s.
         bind (lift (getitem0 alternatives) s) (\<lambda>first s.
         lift (getitem first ''transcript'') s))) = Some (res, s')"
        then show "sound [] s4 (err res) s'"
        proof (rule sound_bind0)
          fix r s5
          assume "service_call (Recognize_google (content audio_data)) s4 = Some (r, s5)"
          then show "sound [] s4 (err r) s5"
            by (rule service_call_plain) (simp_all add: call_marks_def)
        next
          fix answered s5
          assume "service_call (Recognize_google (content audio_data)) s4 = Some (Inr answered, s5)"
            and "bind (lift (getitem (api answered) ''alternative'') s5) (\<lambda>alternatives s.
              bind (lift (getitem0 alternatives) s) (\<lambda>first s.
              lift (getitem first ''transcript'') s)) = Some (res, s')"
          then show "sound [] s5 (err res) s'"
            using service_call_recognised subscripts_sound by blast
        qed
      qed
    qed
  qed
qed

lemma submit_audio_text_sound:
  assumes "submit_audio_text txt s = Some (res, s')"
  shows "sound [] s (err res) s'"
  using assms unfolding submit_audio_text_def
proof (rule sound_bind0)
  fix r s1 assume "fill (Get_by_role ''textbox'' ''Enter what you hear'') txt s = Some (r, s1)"
  then show "sound [] s (err r) s1" by (rule fill_sound)
next
  fix u s1
  assume "bind (click (Get_by_role ''button'' ''Verify'') s1) (\<lambda>u s. submit_audio_text_poll s)
      = Some (res, s')"
  then show "sound [] s1 (err res) s'"
  proof (rule sound_bind0)
    fix r s2 assume "click (Get_by_role ''button'' ''Verify'') s1 = Some (r, s2)"
    then show "sound [] s1 (err r) s2"
      using click_sound[of "Get_by_role ''button'' ''Verify''" s1 r s2]
      by (simp add: call_marks_def)
  next
    fix u s2 assume "submit_audio_text_poll s2 = Some (res, s')"
    then show "sound [] s2 (err res) s'" by (rule submit_audio_text_poll_sound)
  qed
qed

subsection \<open>The retry loop\<close>

lemma bind_SomeE:
  assumes "bind m f = Some (res, s')"
  obtains (raised) e where "m = Some (Inl e, s')" "res = Inl e"
  | (returned) x s1 where "m = Some (Inr x, s1)" "f x s1 = Some (res, s')"
  using assms unfolding bind_Some by blast

lemma attempts_unfold:
  "0 < n \<Longrightarrow> attempts n s =
     bind (audio_attempt s) (\<lambda>checked s.
       if checked then ret () s
       else bind (click (Get_by_role ''button'' ''Get a new challenge'') s) (\<lambda>u s.
              attempts (n - 1) s))"
  by (subst attempts.simps) (simp add: audio_attempt_def bind_assoc)

lemma attempts_none: "\<not> 0 < n \<Longrightarrow> attempts n s = ret () s"
  by (subst attempts.simps) simp

lemma audio_attempt_sound:
  assumes "audio_attempt s = Some (r, s1)"
  shows "(\<exists>e. r = Inl e \<and> sound [] s (Some e) s1) \<or> sound [Attempt] s (err r) s1"
  using assms unfolding audio_attempt_def
proof (rule sound_bind)
  fix r0 s0 assume "random_delay s = Some (r0, s0)"
  then show "sound [] s (err r0) s0" by (rule random_delay_sound)
next
  fix u s0
  assume "bind (get_audio_url s0) (\<lambda>url s.
     bind (convert_audio_to_text url s) (\<lambda>text s.
     bind (random_delay s) (\<lambda>u s.
     bind (submit_audio_text text s) (\<lambda>u s.
     is_checked Recaptcha_checkbox s)))) = Some (r, s1)"
  then show "sound [Attempt] s0 (err r) s1"
  proof (rule sound_bind_marks)
    fix r2 s2 assume "get_audio_url s0 = Some (r2, s2)"
    then show "sound [Attempt] s0 (err r2) s2" by (rule get_audio_url_sound)
  next
    fix url s2
    assume "bind (convert_audio_to_text url s2) (\<lambda>text s.
     bind (random_delay s) (\<lambda>u s.
     bind (submit_audio_text text s) (\<lambda>u s.
     is_checked Recaptcha_checkbox s))) = Some (r, s1)"
    then show "sound [] s2 (err r) s1"
    proof (rule sound_bind0)
      fix r3 s3 assume "convert_audio_to_text url s2 = Some (r3, s3)"
      then show "sound [] s2 (err r3) s3" by (rule convert_audio_to_text_sound)
    next
      fix transcript s3
      assume "bind (random_delay s3) (\<lambda>u s.
        bind (submit_audio_text transcript s) (\<lambda>u s.
        is_checked Recaptcha_checkbox s)) = Some (r, s1)"
      then show "sound [] s3 (err r) s1"
      proof (rule sound_bind0)
        fix r4 s4 assume "random_delay s3 = Some (r4, s4)"
        then show "sound [] s3 (err r4) s4" by (rule random_delay_sound)
      next
        fix u s4
        assume "bind (submit_audio_text transcript s4) (\<lambda>u s.
          is_checked Recaptcha_checkbox s) = Some (r, s1)"
        then show "sound [] s4 (err r) s1"
          by (rule sound_bind0) (auto dest: submit_audio_text_sound is_checked_sound)
      qed
    qed
  qed
qed

lemma audio_attempt_checked:
  assumes "audio_attempt s = Some (Inr b, s1)"
  shows "history s1 \<noteq> [] \<and>
     (if b then found_checked (last (history s1)) else found_unchecked (last (history s1)))"
proof -
  from assms obtain s0 where "is_checked Recaptcha_checkbox s0 = Some (Inr b, s1)"
    unfolding audio_attempt_def bind_Inr by blast
  then show ?thesis by (rule is_checked_found)
qed

lemma rounds_simps [simp]:
  "rounds 0 = []" "rounds (Suc k) = Attempt # New_challenge # rounds k"
  by (simp_all add: rounds_def)

lemma attempts_sound:
  "attempts n s = Some (res, s') \<Longrightarrow>
     \<exists>k pending.
       sound (rounds k @ (if pending then [Attempt] else [])) s (err res) s' \<and>
       int k + (if pending then 1 else 0) \<le> max 0 n \<and>
       (res = Inr () \<longrightarrow>
          (if pending then history s' \<noteq> [] \<and> found_checked (last (history s'))
           else int k = max 0 n))"
proof (induction "nat n" arbitrary: n s res s')
  case 0
  then have "attempts n s = ret () s" by (simp add: attempts_none)
  with "0.prems" have "res = Inr ()" "s' = s" by (simp_all add: ret_Some)
  with 0 show ?case
    by (intro exI[of _ 0] exI[of _ False]) (simp add: sound_refl)
next
  case (Suc m)
  then have n: "0 < n" "m = nat (n - 1)" by simp_all
  let ?new = "Get_by_role ''button'' ''Get a new challenge''"
  from Suc.prems n(1) have run:
    "bind (audio_attempt s) (\<lambda>checked s.
       if checked then ret () s
       else bind (click ?new s) (\<lambda>u s. attempts (n - 1) s)) = Some (res, s')"
    by (simp add: attempts_unfold)
  have "(\<exists>e. audio_attempt s = Some (Inl e, s') \<and> res = Inl e) \<or>
      (audio_attempt s = Some (Inr True, s') \<and> res = Inr ()) \<or>
      (\<exists>s1. audio_attempt s = Some (Inr False, s1) \<and>
         bind (click ?new s1) (\<lambda>u s. attempts (n - 1) s) = Some (res, s'))"
    using run
  proof (cases rule: bind_SomeE)
    case (raised e)
    then show ?thesis by simp
  next
    case (returned checked s1)
    then show ?thesis by (cases checked) (simp_all add: ret_Some)
  qed
  then consider
      (raised) e where "audio_attempt s = Some (Inl e, s')" "res = Inl e"
    | (checked) "audio_attempt s = Some (Inr True, s')" "res = Inr ()"
    | (failed) s1 where "audio_attempt s = Some (Inr False, s1)"
        "bind (click ?new s1) (\<lambda>u s. attempts (n - 1) s) = Some (res, s')"
    by blast
  then show ?case
  proof cases
    case raised
    from audio_attempt_sound[OF raised(1)]
    consider "sound [] s (Some e) s'" | "sound [Attempt] s (Some e) s'" by auto
    then show ?thesis
    proof cases
      case 1
      with raised n show ?thesis
        by (intro exI[of _ 0] exI[of _ False]) simp
    next
      case 2
      with raised n show ?thesis
        by (intro exI[of _ 0] exI[of _ True]) simp
    qed
  next
    case checked
    from audio_attempt_sound[OF checked(1)] have "sound [Attempt] s None s'" by simp
    with checked n audio_attempt_checked[OF checked(1)] show ?thesis
      by (intro exI[of _ 0] exI[of _ True]) simp
  next
    case failed
    from audio_attempt_sound[OF failed(1)] have 1: "sound [Attempt] s None s1" by simp
    from failed(2) show ?thesis
    proof (cases rule: bind_SomeE)
      case (raised e)
      note stuck = this
      from click_sound[OF stuck(1)] have "sound [New_challenge] s1 (Some e) s'"
        by (simp add: call_marks_def)
      with 1 have "sound ([Attempt] @ [New_challenge]) s (Some e) s'" by (rule sound_trans)
      with stuck n show ?thesis
        by (intro exI[of _ 1] exI[of _ False]) simp
    next
      case (returned u s2)
      note again = this
      from click_sound[OF again(1)] have "sound [New_challenge] s1 None s2"
        by (simp add: call_marks_def)
      with 1 have 2: "sound ([Attempt] @ [New_challenge]) s None s2" by (rule sound_trans)
      from Suc.hyps(1)[OF n(2) again(2)] obtain k pending where
        *: "sound (rounds k @ (if pending then [Attempt] else [])) s2 (err res) s'"
        "int k + (if pending then 1 else 0) \<le> max 0 (n - 1)"
        "res = Inr () \<longrightarrow>
          (if pending then history s' \<noteq> [] \<and> found_checked (last (history s'))
           else int k = max 0 (n - 1))" by blast
      from sound_trans[OF 2 *(1)]
      have "sound (rounds (Suc k) @ (if pending then [Attempt] else [])) s (err res) s'"
        by simp
      with *(2,3) n show ?thesis
        by (intro exI[of _ "Suc k"] exI[of _ pending]) auto
    qed
  qed
qed





subsection \<open>The checks before and after the loop\<close>

lemma calls_simps [simp]:
  "calls [] = []" "calls (xs @ ys) = calls xs @ calls ys"
  "calls (Call c snap # es) = Call c snap # calls es" "calls (Callback r # es) = calls es"
  by (simp_all add: calls_def)

lemma calls_map_Callback [simp]: "calls (map Callback rs) = []"
  by (induction rs) simp_all

lemma calls_last:
  assumes "es \<noteq> []" and "found_checked (last es)"
  shows "calls es \<noteq> [] \<and> last (calls es) = last es"
proof -
  from assms(1) obtain xs x where es: "es = xs @ [x]" by (metis rev_exhaust)
  with assms(2) obtain c snap where "x = Call c snap" by (cases x) simp_all
  with es show ?thesis by simp
qed

lemma browser_call_calls:
  assumes "browser_call c s = Some (res, s')"
  shows "\<exists>snap. calls (history s') = calls (history s) @ [Call c snap]"
proof -
  from assms obtain snap rest where
    "s' = (if (''response'', Extract_token) \<in> set (listeners s)
              then (fold extract_token (emitted snap) s)
                     \<lparr>feed := rest, history := history s @ map Callback (emitted snap) @ [Call c snap]\<rparr>
              else s\<lparr>feed := rest, history := history s @ [Call c snap]\<rparr>)"
    by (rule browser_call_SomeE)
  then have "calls (history s') = calls (history s) @ [Call c snap]"
    by (simp split: if_splits)
  then show ?thesis ..
qed

lemma is_checked_calls:
  assumes "is_checked l s = Some (res, s')"
  shows "\<exists>snap. calls (history s') = calls (history s) @ [Call (Is_checked l) snap]"
  using assms browser_call_calls[of "Is_checked l" s _ s']
  unfolding is_checked_def bind_ret_Some by blast

lemma first_check_sound:
  assumes "first_check s = Some (r, s1)"
  shows "sound [] s (err r) s1"
  using assms unfolding first_check_def
proof (rule sound_bind0)
  fix r0 s0 assume "wait_for_load_state ''networkidle'' s = Some (r0, s0)"
  then show "sound [] s (err r0) s0" by (rule wait_for_load_state_sound)
next
  fix u s0
  assume "bind (get_recaptcha_frame s0) (\<lambda>recaptcha_frame s.
     bind (get_recaptcha_checkbox s) (\<lambda>recaptcha_checkbox s.
     bind (click Recaptcha_checkbox s) (\<lambda>u s.
     is_checked Recaptcha_checkbox s))) = Some (r, s1)"
  then show "sound [] s0 (err r) s1"
  proof (rule sound_bind0)
    fix r2 s2 assume "get_recaptcha_frame s0 = Some (r2, s2)"
    then show "sound [] s0 (err r2) s2" by (rule get_recaptcha_frame_sound)
  next
    fix u s2
    assume "bind (get_recaptcha_checkbox s2) (\<lambda>recaptcha_checkbox s.
       bind (click Recaptcha_checkbox s) (\<lambda>u s.
       is_checked Recaptcha_checkbox s)) = Some (r, s1)"
    then show "sound [] s2 (err r) s1"
    proof (rule sound_bind0)
      fix r3 s3 assume "get_recaptcha_checkbox s2 = Some (r3, s3)"
      then show "sound [] s2 (err r3) s3" by (rule get_recaptcha_checkbox_sound)
    next
      fix u s3
      assume "bind (click Recaptcha_checkbox s3) (\<lambda>u s.
         is_checked Recaptcha_checkbox s) = Some (r, s1)"
      then show "sound [] s3 (err r) s1"
      proof (rule sound_bind0)
        fix r4 s4 assume "click Recaptcha_checkbox s3 = Some (r4, s4)"
        then show "sound [] s3 (err r4) s4"
          using click_sound[of Recaptcha_checkbox s3 r4 s4] by (simp add: call_marks_def)
      next
        fix u s4 assume "is_checked Recaptcha_checkbox s4 = Some (r, s1)"
        then show "sound [] s4 (err r) s1" by (rule is_checked_sound)
      qed
    qed
  qed
qed

lemma first_check_found:
  assumes "first_check s = Some (Inr b, s1)"
  shows "history s1 \<noteq> [] \<and>
     (if b then found_checked (last (history s1)) else found_unchecked (last (history s1)))"
proof -
  from assms obtain s0 where "is_checked Recaptcha_checkbox s0 = Some (Inr b, s1)"
    unfolding first_check_def bind_Inr by blast
  then show ?thesis by (rule is_checked_found)
qed

lemma last_check_cases:
  assumes "last_check s = Some (res, s')"
  obtains (raised) e where "res = Inl e" "sound [] s (Some e) s'"
  | (refused) "res = Inl RecaptchaSolveError" "sound [] s None s'" "history s' \<noteq> []"
      "found_unchecked (last (history s'))"
  | (checked) "res = Inr (token s')" "sound [] s None s'" "history s' \<noteq> []"
      "found_checked (last (history s'))"
  using assms unfolding last_check_def
proof (cases rule: bind_SomeE)
  case (raised e)
  then show ?thesis using is_checked_sound[of Recaptcha_checkbox s "Inl e" s'] that(1) by simp
next
  case (returned b s1)
  from is_checked_sound[OF returned(1)] have 1: "sound [] s None s1" by simp
  show ?thesis
  proof (cases b)
    case True
    with returned(2) have "res = Inr (token s')" "s' = s1" by (simp_all add: ret_Some)
    with 1 is_checked_found[OF returned(1)] True that(3) show ?thesis by simp
  next
    case False
    with returned(2) have "res = Inl RecaptchaSolveError" "s' = s1" by (simp_all add: raise_Some)
    with 1 is_checked_found[OF returned(1)] False that(2) show ?thesis by simp
  qed
qed

lemma last_check_calls:
  assumes "last_check s = Some (res, s')"
  shows "\<exists>snap. calls (history s') = calls (history s) @ [Call (Is_checked Recaptcha_checkbox) snap]"
  using assms unfolding last_check_def
proof (cases rule: bind_SomeE)
  case (raised e)
  then show ?thesis by (auto dest: is_checked_calls)
next
  case (returned b s1)
  then have "s' = s1" by (cases b) (simp_all add: ret_Some raise_Some)
  with returned(1) show ?thesis by (auto dest: is_checked_calls)
qed

lemma solve_recaptcha_unfold:
  "solve_recaptcha retries_arg s0 =
     bind (first_check (on ''response'' Extract_token s0)) (\<lambda>checked s.
       if checked then ret (token s) s
       else bind (attempts (effective_retries retries_arg s0) s) (\<lambda>u. last_check))"
proof -
  have er: "effective_retries retries_arg (on ''response'' Extract_token s0) =
      effective_retries retries_arg s0"
    by (simp add: effective_retries_def on_def split: option.splits)
  have lc: "last_check = (\<lambda>s. bind (is_checked Recaptcha_checkbox s) (\<lambda>checked s.
       if \<not> checked then raise RecaptchaSolveError s else ret (token s) s))"
    by (rule ext) (simp add: last_check_def)
  show ?thesis
    unfolding solve_recaptcha_def Let_def er first_check_def lc bind_assoc ..
qed

lemma browser_call_next:
  assumes "feed s = snap # rest" and "failure snap = None"
  shows "\<exists>s'. browser_call c s = Some (Inr snap, s') \<and> feed s' = rest \<and>
           calls (history s') = calls (history s) @ [Call c snap]"
  unfolding browser_call_Cons[OF assms(1)] using assms(2) by simp

lemma is_visible_next:
  assumes "feed s = snap # rest" and "failure snap = None"
  shows "\<exists>s'. is_visible l s = Some (Inr (truth snap), s') \<and> feed s' = rest"
  using browser_call_next[OF assms, of "Is_visible l"]
  by (auto simp: is_visible_def bind_def ret_def)

lemma is_checked_next:
  assumes "feed s = snap # rest" and "failure snap = None"
  shows "\<exists>s'. is_checked l s = Some (Inr (truth snap), s') \<and> feed s' = rest"
  using browser_call_next[OF assms, of "Is_checked l"]
  by (auto simp: is_checked_def bind_def ret_def)


subsection \<open>Every run of \<^verbatim>\<open>solve_recaptcha\<close>\<close>

text \<open>
  The marks of the run are \<open>k\<close> rounds and at most one attempt left \<open>pending\<close>, within
  the effective retries; the run ends as its result says.
\<close>

lemma sound_moved:
  "sound ms s e s' \<Longrightarrow> moved ms (if e = Some RecaptchaRateLimitError then 1 else 0) s s'"
  by (simp add: sound_def)

lemma sound_ended: "sound ms s e s' \<Longrightarrow> ended e s'"
  by (simp add: sound_def)

lemma sound_not_solve_error: "sound ms s (Some e) s' \<Longrightarrow> e \<noteq> RecaptchaSolveError"
  by (auto simp: sound_def)

lemma solve_recaptcha_run:
  assumes "solve_recaptcha retries_arg s0 = Some (res, s')"
  shows "\<exists>k pending.
     moved (rounds k @ (if pending then [Attempt] else []))
       (if res = Inl RecaptchaRateLimitError then 1 else 0)
       (on ''response'' Extract_token s0) s' \<and>
     int k + (if pending then 1 else 0) \<le> max 0 (effective_retries retries_arg s0) \<and>
     ended (err res) s' \<and>
     (\<forall>v. res = Inr v \<longrightarrow> v = token s' \<and> history s' \<noteq> [] \<and> found_checked (last (history s'))) \<and>
     (res = Inl RecaptchaSolveError \<and> \<not> pending \<longrightarrow>
        int k = max 0 (effective_retries retries_arg s0)) \<and>
     ((res = Inl RecaptchaSolveError \<or> (\<exists>v. res = Inr v)) \<and> pending \<longrightarrow>
        found_checked (last (butlast (calls (history s')))))"
proof -
  let ?s = "on ''response'' Extract_token s0"
  let ?n = "effective_retries retries_arg s0"
  let ?goal = "\<lambda>k pending.
     moved (rounds k @ (if pending then [Attempt] else []))
       (if res = Inl RecaptchaRateLimitError then 1 else 0) ?s s' \<and>
     int k + (if pending then 1 else 0) \<le> max 0 ?n \<and>
     ended (err res) s' \<and>
     (\<forall>v. res = Inr v \<longrightarrow> v = token s' \<and> history s' \<noteq> [] \<and> found_checked (last (history s'))) \<and>
     (res = Inl RecaptchaSolveError \<and> \<not> pending \<longrightarrow> int k = max 0 ?n) \<and>
     ((res = Inl RecaptchaSolveError \<or> (\<exists>v. res = Inr v)) \<and> pending \<longrightarrow>
        found_checked (last (butlast (calls (history s')))))"
  have when_raised: "?goal k pending"
    if "res = Inl e" "sound (rounds k @ (if pending then [Attempt] else [])) ?s (Some e) s'"
      "int k + (if pending then 1 else 0) \<le> max 0 ?n" for e k pending
    using that sound_moved[OF that(2)] sound_ended[OF that(2)] sound_not_solve_error[OF that(2)]
    by simp
  from assms have run:
    "bind (first_check ?s) (\<lambda>checked s.
       if checked then ret (token s) s
       else bind (attempts ?n s) (\<lambda>u. last_check)) = Some (res, s')"
    by (simp only: solve_recaptcha_unfold)
  then show ?thesis
  proof (cases rule: bind_SomeE)
    case (raised e)
    from first_check_sound[OF raised(1)] have "sound (rounds 0 @ []) ?s (Some e) s'" by simp
    then have "?goal 0 False" using raised(2) when_raised[of e 0 False]
      by simp
    then show ?thesis by blast
  next
    case (returned b s1)
    from first_check_sound[OF returned(1)] have 1: "sound [] ?s None s1" by simp
    show ?thesis
    proof (cases b)
      case True
      with returned(2) have "res = Inr (token s')" "s' = s1" by (simp_all add: ret_Some)
      with 1 first_check_found[OF returned(1)] True have "?goal 0 False"
        by (simp add: sound_def ended_def)
      then show ?thesis by blast
    next
      case False
      with returned(2) have "bind (attempts ?n s1) (\<lambda>u. last_check) = Some (res, s')" by simp
      then show ?thesis
      proof (cases rule: bind_SomeE)
        case (raised e)
        from attempts_sound[OF raised(1)] obtain k pending where
          *: "sound (rounds k @ (if pending then [Attempt] else [])) s1 (Some e) s'"
          "int k + (if pending then 1 else 0) \<le> max 0 ?n" by auto
        from raised(2) sound_trans0[OF 1 *(1)] *(2) have "?goal k pending"
          by (rule when_raised)
        then show ?thesis by blast
      next
        case (returned u s2)
        from attempts_sound[OF returned(1)] obtain k pending where
          *: "sound (rounds k @ (if pending then [Attempt] else [])) s1 None s2"
          "int k + (if pending then 1 else 0) \<le> max 0 ?n"
          "if pending then history s2 \<noteq> [] \<and> found_checked (last (history s2))
           else int k = max 0 ?n" by auto
        from sound_trans0[OF 1 *(1)]
        have 2: "sound (rounds k @ (if pending then [Attempt] else [])) ?s None s2" .
        from last_check_calls[OF returned(2)] obtain snap where
          "calls (history s') = calls (history s2) @ [Call (Is_checked Recaptcha_checkbox) snap]"
          by blast
        then have before: "found_checked (last (butlast (calls (history s'))))" if pending
          using that *(3) calls_last[of "history s2"] by simp
        from returned(2) show ?thesis
        proof (cases rule: last_check_cases)
          case (raised e)
          from sound_trans[OF 2 raised(2)] *(2) raised(1) have "?goal k pending"
            using sound_moved[of _ ?s "Some e" s'] sound_ended[of _ ?s "Some e" s']
              sound_not_solve_error[of _ ?s e s']
            by simp
          then show ?thesis by blast
        next
          case refused
          from sound_trans[OF 2 refused(2)] *(2,3) refused(1,3,4) before have "?goal k pending"
            using sound_moved[of _ ?s None s'] by (simp add: ended_def)
          then show ?thesis by blast
        next
          case checked
          from sound_trans[OF 2 checked(2)] *(2,3) checked(1,3,4) before have "?goal k pending"
            using sound_moved[of _ ?s None s'] by (simp add: ended_def)
          then show ?thesis by blast
        qed
      qed
    qed
  qed
qed

section \<open>The runs on the concrete worlds\<close>

lemmas run_defs =
  init_def solve_recaptcha_def on_def effective_retries_def bind_def wait_for_load_state_def
  browser_call_def answer_def ret_def raise_def get_recaptcha_frame_def
  get_recaptcha_checkbox_def click_def is_checked_def random_delay_def randint_def
  service_call_def wait_for_timeout_def get_audio_url_def is_visible_def get_attribute_def
  convert_audio_to_text_def lift_def submit_audio_text_def fill_def emit_def
  get_audio_url_poll.simps submit_audio_text_poll.simps attempts.simps
  quiet_def yes_def heard_def opening_calls_def attempt_calls_def


lemma checked_run:
  "solve_recaptcha None (init [] checked_at_once None) = Some (Inr None, checked_state)"
  by (simp add: run_defs checked_at_once_def checked_state_def)

lemma solved_run:
  "solve_recaptcha None (init [] solved_feed None) = Some (Inr (Some ''03AGdBq2''), solved_state)"
  by (simp add: run_defs solved_feed_def first_attempt_def solved_state_def
      extract_token_verified)

lemma limited_run:
  "solve_recaptcha None (init [] limited_feed None) =
     Some (Inl RecaptchaRateLimitError, limited_state)"
  by (simp add: run_defs limited_feed_def limited_state_def)

lemma heard_run:
  "convert_audio_to_text (Some ''https://www.google.com/recaptcha/api2/payload/audio.mp3'')
     (init [] heard_feed None) = Some (Inr (JStr ''seven two''), heard_state)"
  by (simp add: run_defs heard_feed_def heard_state_def audio_pipeline_def)

lemma more_run:
  "bind (submit_audio_text (JStr ''seven two'') (init [] more_feed None))
     (\<lambda>u. is_checked Recaptcha_checkbox) = Some (Inr False, more_state)"
  by (simp add: run_defs more_feed_def more_state_def)



section \<open>What \<^verbatim>\<open>solve_recaptcha\<close> returns and raises\<close>

lemma ending_not_checked: "ending e x \<Longrightarrow> \<not> found_checked x"
  by (cases e; cases x rule: recognised.cases) auto



lemma moved_on:
  assumes "moved ms k (on event h s) s'"
  shows "retries s' = retries s \<and>
     (\<exists>new. history s' = history s @ new \<and>
        token s' = token (fold extract_token (callbacks new) s) \<and>
        marks new = ms \<and> rate_limits new = k)"
proof -
  from assms obtain new where *: "retries s' = retries (on event h s)"
    "history s' = history (on event h s) @ new"
    "token s' = token (fold extract_token (callbacks new) (on event h s))"
    "marks new = ms" "rate_limits new = k"
    unfolding moved_def by blast
  have "token (on event h s) = token s" by (simp add: on_def)
  then have "token (fold extract_token (callbacks new) (on event h s)) =
      token (fold extract_token (callbacks new) s)"
    by (rule token_fold_extract_token_cong)
  with * show ?thesis by (auto simp: on_def)
qed

text \<open>
  What \<^verbatim>\<open>solve_recaptcha\<close> returns. Every run ends on a call, and the run whose last call
  finds the checkbox checked is the run that returns; what it returns is the value of the
  token field at that moment, which is what the listener made of the token on the
  responses handed to it during the run.
\<close>

theorem solve_recaptcha_returns_token_field:
  assumes "solve_recaptcha retries_arg s = Some (res, s')"
  shows "history s' \<noteq> [] \<and>
     (found_checked (last (history s')) \<longleftrightarrow> res = Inr (token s')) \<and>
     listener_only s s'"
proof -
  from solve_recaptcha_run[OF assms] obtain k pending where
    m: "moved (rounds k @ (if pending then [Attempt] else []))
       (if res = Inl RecaptchaRateLimitError then 1 else 0)
       (on ''response'' Extract_token s) s'"
    and e: "ended (err res) s'"
    and v: "\<forall>v. res = Inr v \<longrightarrow> v = token s' \<and> history s' \<noteq> [] \<and> found_checked (last (history s'))"
    by blast
  have "history s' \<noteq> [] \<and> (found_checked (last (history s')) \<longleftrightarrow> res = Inr (token s'))"
  proof (cases res)
    case (Inl x)
    with e show ?thesis by (auto simp: ended_def dest: ending_not_checked)
  next
    case (Inr y)
    with v show ?thesis by simp
  qed
  moreover have "listener_only s s'"
    using moved_on[OF m] unfolding listener_only_def by blast
  ultimately show ?thesis by simp
qed

theorem solve_recaptcha_returns_token_field_witness:
  "solve_recaptcha None (init [] solved_feed None) = Some (Inr (Some ''03AGdBq2''), solved_state) \<and>
   history solved_state \<noteq> [] \<and> found_checked (last (history solved_state)) \<and>
   token solved_state = Some ''03AGdBq2'' \<and>
   listener_only (init [] solved_feed None) solved_state"
  using solve_recaptcha_returns_token_field[OF solved_run] solved_run
  by (simp add: solved_state_def)

text \<open>
  Claim C1: a run of \<^verbatim>\<open>solve_recaptcha\<close> in which the checkbox becomes checked returns the
  token, a string, as the docstring of the method also says (\<^verbatim>\<open>Returns str: The reCAPTCHA
  token\<close>). The code does not keep this. On a new solver, when the first click leaves the
  checkbox checked and no userverify response has been handed to the listener, the
  checkbox is found checked and \<^verbatim>\<open>solve_recaptcha\<close> returns \<^verbatim>\<open>None\<close>.
\<close>

theorem solve_recaptcha_returns_none:
  "solve_recaptcha None (init [] checked_at_once None) = Some (Inr None, checked_state) \<and>
   found_checked (last (history checked_state))"
  using checked_run
  by (simp add: checked_state_def checked_at_once_def opening_calls_def yes_def quiet_def)









lemma rate_limit_run:
  assumes "solve_recaptcha retries_arg s = Some (res, s')"
  shows "\<exists>new. history s' = history s @ new \<and>
     rate_limits new = (if res = Inl RecaptchaRateLimitError then 1 else 0) \<and>
     (res = Inl RecaptchaRateLimitError \<longrightarrow> new \<noteq> [] \<and> rate_limited (last new))"
proof -
  from solve_recaptcha_run[OF assms] obtain k pending where
    m: "moved (rounds k @ (if pending then [Attempt] else []))
       (if res = Inl RecaptchaRateLimitError then 1 else 0)
       (on ''response'' Extract_token s) s'"
    and e: "ended (err res) s'"
    by blast
  from moved_on[OF m] obtain new where n: "history s' = history s @ new"
    "rate_limits new = (if res = Inl RecaptchaRateLimitError then 1 else 0)" by blast
  have "new \<noteq> [] \<and> rate_limited (last new)" if r: "res = Inl RecaptchaRateLimitError"
  proof -
    from n(2) r have "new \<noteq> []" by auto
    moreover from e r have "rate_limited (last (history s'))" by (simp add: ended_def)
    ultimately show ?thesis using n(1) by simp
  qed
  with n show ?thesis by blast
qed

lemma get_audio_url_poll_raises:
  assumes "feed s = a # b # rest"
    and "failure a = None" and "\<not> truth a" and "failure b = None" and "truth b"
  shows "\<exists>s'. get_audio_url_poll s = Some (Inl RecaptchaRateLimitError, s') \<and> feed s' = rest"
proof -
  from is_visible_next[OF assms(1,2)] assms(3) obtain s1 where
    1: "is_visible (Get_by_text ''Press PLAY to listen'') s = Some (Inr False, s1)"
    "feed s1 = b # rest" by auto
  from is_visible_next[OF 1(2) assms(4)] assms(5) obtain s2 where
    2: "is_visible (Get_by_text ''Try again later'') s1 = Some (Inr True, s2)"
    "feed s2 = rest" by auto
  have "get_audio_url_poll s = Some (Inl RecaptchaRateLimitError, s2)"
    using 1(1) 2(1) by (subst get_audio_url_poll.simps) (simp add: bind_def raise_def)
  with 2(2) show ?thesis by blast
qed

lemma submit_audio_text_poll_raises:
  assumes "feed s = a # b # c # rest"
    and "failure a = None" and "\<not> truth a" and "failure b = None" and "\<not> truth b"
    and "failure c = None" and "truth c"
  shows "\<exists>s'. submit_audio_text_poll s = Some (Inl RecaptchaRateLimitError, s') \<and> feed s' = rest"
proof -
  from is_visible_next[OF assms(1,2)] assms(3) obtain s1 where
    1: "is_visible (Get_by_text ''Multiple correct solutions required - please solve more.'') s
          = Some (Inr False, s1)"
    "feed s1 = b # c # rest" by auto
  from is_checked_next[OF 1(2) assms(4)] assms(5) obtain s2 where
    2: "is_checked Recaptcha_checkbox s1 = Some (Inr False, s2)"
    "feed s2 = c # rest" by auto
  from is_visible_next[OF 2(2) assms(6)] assms(7) obtain s3 where
    3: "is_visible (Get_by_text ''Try again later'') s2 = Some (Inr True, s3)"
    "feed s3 = rest" by auto
  have "submit_audio_text_poll s = Some (Inl RecaptchaRateLimitError, s3)"
    using 1(1) 2(1) 3(1) by (subst submit_audio_text_poll.simps) (simp add: bind_def raise_def)
  with 3(2) show ?thesis by blast
qed

text \<open>
  Claim C3, as the code has it. The solver does not retry on the rate limit: in every
  run of \<^verbatim>\<open>solve_recaptcha\<close> that ends, the message \<^verbatim>\<open>Try again later\<close> is seen at most
  once, it is seen exactly when the run raises \<^verbatim>\<open>RecaptchaRateLimitError\<close>, and seeing it
  is then the last call of the run. And the error is raised: a pass of either polling
  loop on a page that shows neither what the loop waits for nor an error, and then shows
  the message, raises \<^verbatim>\<open>RecaptchaRateLimitError\<close> at once, having read the page two times
  (in \<^verbatim>\<open>_get_audio_url\<close>) or three times (in \<^verbatim>\<open>_submit_audio_text\<close>).
\<close>

theorem rate_limit_ends_the_run:
  "(solve_recaptcha retries_arg s = Some (res, s') \<longrightarrow>
      (\<exists>new. history s' = history s @ new \<and>
         rate_limits new = (if res = Inl RecaptchaRateLimitError then 1 else 0) \<and>
         (res = Inl RecaptchaRateLimitError \<longrightarrow> new \<noteq> [] \<and> rate_limited (last new)))) \<and>
   (feed s = a # b # rest \<and> failure a = None \<and> \<not> truth a \<and> failure b = None \<and> truth b \<longrightarrow>
      (\<exists>s'. get_audio_url_poll s = Some (Inl RecaptchaRateLimitError, s') \<and> feed s' = rest)) \<and>
   (feed s = a # b # c # rest \<and> failure a = None \<and> \<not> truth a \<and> failure b = None \<and> \<not> truth b \<and>
    failure c = None \<and> truth c \<longrightarrow>
      (\<exists>s'. submit_audio_text_poll s = Some (Inl RecaptchaRateLimitError, s') \<and> feed s' = rest))"
proof (intro conjI impI)
  assume "solve_recaptcha retries_arg s = Some (res, s')"
  then show "\<exists>new. history s' = history s @ new \<and>
         rate_limits new = (if res = Inl RecaptchaRateLimitError then 1 else 0) \<and>
         (res = Inl RecaptchaRateLimitError \<longrightarrow> new \<noteq> [] \<and> rate_limited (last new))"
    by (rule rate_limit_run)
next
  assume "feed s = a # b # rest \<and> failure a = None \<and> \<not> truth a \<and> failure b = None \<and> truth b"
  then show "\<exists>s'. get_audio_url_poll s = Some (Inl RecaptchaRateLimitError, s') \<and> feed s' = rest"
    using get_audio_url_poll_raises[of s a b rest] by simp
next
  assume "feed s = a # b # c # rest \<and> failure a = None \<and> \<not> truth a \<and> failure b = None \<and>
    \<not> truth b \<and> failure c = None \<and> truth c"
  then show "\<exists>s'. submit_audio_text_poll s = Some (Inl RecaptchaRateLimitError, s') \<and> feed s' = rest"
    using submit_audio_text_poll_raises[of s a b c rest] by simp
qed

theorem rate_limit_ends_the_run_witness:
  "solve_recaptcha None (init [] limited_feed None) =
     Some (Inl RecaptchaRateLimitError, limited_state) \<and>
   (\<exists>new. history limited_state = history (init [] limited_feed None) @ new \<and>
      rate_limits new = 1 \<and> new \<noteq> [] \<and> rate_limited (last new)) \<and>
   feed (init [] [quiet, yes] None) = quiet # yes # [] \<and>
   failure quiet = None \<and> \<not> truth quiet \<and> failure yes = None \<and> truth yes \<and>
   (\<exists>s'. get_audio_url_poll (init [] [quiet, yes] None) =
      Some (Inl RecaptchaRateLimitError, s') \<and> feed s' = []) \<and>
   feed (init [] [quiet, quiet, yes] None) = quiet # quiet # yes # [] \<and>
   (\<exists>s'. submit_audio_text_poll (init [] [quiet, quiet, yes] None) =
      Some (Inl RecaptchaRateLimitError, s') \<and> feed s' = [])"
proof -
  have q: "failure quiet = None" "\<not> truth quiet" "failure yes = None" "truth yes"
    by (simp_all add: quiet_def yes_def)
  have f: "feed (init [] [quiet, yes] None) = quiet # yes # []"
    "feed (init [] [quiet, quiet, yes] None) = quiet # quiet # yes # []"
    by (simp_all add: init_def)
  from rate_limit_ends_the_run[of None "init [] limited_feed None"
      "Inl RecaptchaRateLimitError" limited_state]
    rate_limit_ends_the_run[of None "init [] [quiet, yes] None" _ _ quiet yes "[]"]
    rate_limit_ends_the_run[of None "init [] [quiet, quiet, yes] None" _ _ quiet quiet "[]" yes]
    limited_run q f
  show ?thesis by simp
qed

text \<open>
  Claim C3 as it is written fails on the run in which the message shows during the first
  of three attempts allowed: the run raises \<^verbatim>\<open>RecaptchaRateLimitError\<close> after that one
  attempt and leaves the rest of the feed, on which a second attempt would have solved
  the challenge, unread.
\<close>

theorem rate_limit_no_retry_counterexample:
  "solve_recaptcha None (init [] limited_feed None) =
     Some (Inl RecaptchaRateLimitError, limited_state) \<and>
   effective_retries None (init [] limited_feed None) = 3 \<and>
   marks (history limited_state) = [Attempt] \<and>
   rate_limited (last (history limited_state)) \<and>
   feed limited_state = first_attempt @ [yes, yes]"
  using limited_run
  by (simp add: limited_state_def limited_feed_def opening_calls_def call_marks_def
      effective_retries_def init_def yes_def quiet_def)

section \<open>The token field\<close>

lemma outcome_Some:
  "outcome m = Some (e, s') \<longleftrightarrow> (\<exists>res. m = Some (res, s') \<and> e = err res)"
  by (auto simp: outcome_def split: option.splits)

lemma sound_listener_only: "sound ms s e s' \<Longrightarrow> listener_only s s'"
  unfolding sound_def moved_def listener_only_def by blast

lemma close_Some:
  "close s = Some (Inr (), s\<lparr>listeners := removeAll (''response'', Extract_token) (listeners s)\<rparr>)"
  by (simp add: close_def remove_listener_def ret_def raise_def)

text \<open>
  Claim C5. The constructor sets the token to \<^verbatim>\<open>None\<close>. Whatever operation of the solver
  runs (\<^verbatim>\<open>_random_delay\<close>, \<^verbatim>\<open>_get_audio_url\<close>, \<^verbatim>\<open>_convert_audio_to_text\<close>,
  \<^verbatim>\<open>_submit_audio_text\<close>, \<^verbatim>\<open>close\<close>, \<^verbatim>\<open>solve_recaptcha\<close>), and however it ends, the
  retries are what they were and the token is what \<^verbatim>\<open>_extract_token\<close> made of the old
  token on the responses the page handed to the listener meanwhile, in their order: no
  operation writes the token itself.
\<close>

theorem token_written_by_listener_only:
  assumes "perform operation s = Some (e, s')"
  shows "listener_only s s' \<and> token (init page_listeners page_feed retries_arg) = None"
proof -
  have "listener_only s s'"
  proof (cases operation)
    case Random_delay
    with assms show ?thesis
      by (auto simp: outcome_Some dest!: random_delay_sound sound_listener_only)
  next
    case Get_audio_url
    with assms show ?thesis
      by (auto simp: outcome_Some dest!: get_audio_url_sound sound_listener_only)
  next
    case (Convert_audio_to_text audio_url)
    with assms show ?thesis
      by (auto simp: outcome_Some dest!: convert_audio_to_text_sound sound_listener_only)
  next
    case (Submit_audio_text transcript)
    with assms show ?thesis
      by (auto simp: outcome_Some dest!: submit_audio_text_sound sound_listener_only)
  next
    case Close
    with assms have "s' = s\<lparr>listeners := removeAll (''response'', Extract_token) (listeners s)\<rparr>"
      by (simp add: outcome_Some close_Some)
    then show ?thesis by (simp add: listener_only_def)
  next
    case (Solve_recaptcha r)
    with assms obtain res where "solve_recaptcha r s = Some (res, s')"
      by (auto simp: outcome_Some)
    from solve_recaptcha_run[OF this] obtain ms k where
      "moved ms k (on ''response'' Extract_token s) s'" by blast
    from moved_on[OF this] show ?thesis unfolding listener_only_def by blast
  qed
  then show ?thesis by (simp add: init_def)
qed

theorem token_written_by_listener_only_witness:
  "perform (Solve_recaptcha None) (init [] solved_feed None) = Some (None, solved_state) \<and>
   listener_only (init [] solved_feed None) solved_state \<and>
   token (init [] solved_feed None) = None \<and>
   callbacks (history solved_state) = [verified] \<and>
   token solved_state = token (extract_token verified (init [] solved_feed None))"
proof -
  have run: "perform (Solve_recaptcha None) (init [] solved_feed None) = Some (None, solved_state)"
    by (simp add: outcome_def solved_run)
  have "callbacks (history solved_state) = [verified]"
    by (simp add: solved_state_def solved_feed_def first_attempt_def opening_calls_def
        attempt_calls_def)
  moreover have "token solved_state = token (extract_token verified (init [] solved_feed None))"
    by (simp add: extract_token_verified solved_state_def)
  ultimately show ?thesis
    using token_written_by_listener_only[OF run, of "[]" solved_feed None] run by simp
qed

section \<open>The audio pipeline\<close>








section \<open>The effective retries\<close>

text \<open>
  Claim C8. The retries argument \<^verbatim>\<open>None\<close> and the retries argument \<^verbatim>\<open>0\<close> both give the
  retries of the constructor (3 by default) as the effective retries, so
  \<^verbatim>\<open>solve_recaptcha(0)\<close> runs as \<^verbatim>\<open>solve_recaptcha()\<close> does; on the world \<open>solved_feed\<close> it
  makes an attempt at the audio challenge and returns the token.
\<close>

theorem zero_retries_fall_back:
  "effective_retries None s = retries s \<and>
   effective_retries (Some 0) s = retries s \<and>
   solve_recaptcha (Some 0) s = solve_recaptcha None s \<and>
   retries (init page_listeners page_feed None) = 3 \<and>
   solve_recaptcha (Some 0) (init [] solved_feed None) =
     Some (Inr (Some ''03AGdBq2''), solved_state) \<and>
   marks (history solved_state) = [Attempt]"
proof -
  have 1: "solve_recaptcha (Some 0) s = solve_recaptcha None s" for s
    by (simp add: solve_recaptcha_def effective_retries_def)
  have "marks (history solved_state) = [Attempt]"
    by (simp add: solved_state_def solved_feed_def first_attempt_def opening_calls_def
        attempt_calls_def call_marks_def)
  with 1 solved_run show ?thesis
    by (simp add: effective_retries_def init_def)
qed

section \<open>Submitting the transcript\<close>

text \<open>
  Claim C9. When the two calls that submit the transcript succeed and the next call finds
  the message \<^verbatim>\<open>Multiple correct solutions required - please solve more.\<close> visible,
  \<^verbatim>\<open>_submit_audio_text\<close> returns normally after these three calls: it has not looked at
  the checkbox, so its return says nothing about the checkbox. The check is left to the
  caller.
\<close>

theorem submit_audio_text_returns_unchecked:
  assumes "feed s = a # b # c # rest"
    and "failure a = None" and "failure b = None" and "failure c = None" and "truth c"
  shows "\<exists>s'. submit_audio_text transcript s = Some (Inr (), s') \<and> feed s' = rest \<and>
     calls (history s') = calls (history s) @
       [Call (Fill (Get_by_role ''textbox'' ''Enter what you hear'') transcript) a,
        Call (Click (Get_by_role ''button'' ''Verify'')) b,
        Call (Is_visible
               (Get_by_text ''Multiple correct solutions required - please solve more.'')) c]"
proof -
  let ?more = "Get_by_text ''Multiple correct solutions required - please solve more.''"
  from browser_call_next[OF assms(1,2)] obtain s1 where
    1: "browser_call (Fill (Get_by_role ''textbox'' ''Enter what you hear'') transcript) s =
          Some (Inr a, s1)"
    "feed s1 = b # c # rest"
    "calls (history s1) = calls (history s) @
       [Call (Fill (Get_by_role ''textbox'' ''Enter what you hear'') transcript) a]"
    by blast
  from browser_call_next[OF 1(2) assms(3)] obtain s2 where
    2: "browser_call (Click (Get_by_role ''button'' ''Verify'')) s1 = Some (Inr b, s2)"
    "feed s2 = c # rest"
    "calls (history s2) = calls (history s1) @ [Call (Click (Get_by_role ''button'' ''Verify'')) b]"
    by blast
  from browser_call_next[OF 2(2) assms(4)] obtain s3 where
    3: "browser_call (Is_visible ?more) s2 = Some (Inr c, s3)"
    "feed s3 = rest"
    "calls (history s3) = calls (history s2) @ [Call (Is_visible ?more) c]"
    by blast
  have "submit_audio_text_poll s2 = Some (Inr (), s3)"
    using 3(1) assms(5)
    by (subst submit_audio_text_poll.simps) (simp add: is_visible_def bind_def ret_def)
  then have "submit_audio_text transcript s = Some (Inr (), s3)"
    using 1(1) 2(1) by (simp add: submit_audio_text_def fill_def click_def bind_def ret_def)
  with 1(3) 2(3) 3(2,3) show ?thesis by simp
qed

theorem submit_audio_text_returns_unchecked_witness:
  "feed (init [] more_feed None) = quiet # quiet # yes # [quiet] \<and>
   failure quiet = None \<and> failure yes = None \<and> truth yes \<and>
   (\<exists>s'. submit_audio_text (JStr ''seven two'') (init [] more_feed None) = Some (Inr (), s') \<and>
      feed s' = [quiet] \<and>
      calls (history s') = calls (history (init [] more_feed None)) @
        [Call (Fill (Get_by_role ''textbox'' ''Enter what you hear'') (JStr ''seven two'')) quiet,
         Call (Click (Get_by_role ''button'' ''Verify'')) quiet,
         Call (Is_visible
                (Get_by_text ''Multiple correct solutions required - please solve more.'')) yes]) \<and>
   bind (submit_audio_text (JStr ''seven two'') (init [] more_feed None))
     (\<lambda>u. is_checked Recaptcha_checkbox) = Some (Inr False, more_state) \<and>
   found_unchecked (last (history more_state))"
proof -
  have f: "feed (init [] more_feed None) = quiet # quiet # yes # [quiet]"
    by (simp add: init_def more_feed_def)
  have q: "failure quiet = None" "failure yes = None" "truth yes"
    by (simp_all add: quiet_def yes_def)
  have u: "found_unchecked (last (history more_state))"
    by (simp add: more_state_def more_feed_def quiet_def)
  from f q submit_audio_text_returns_unchecked[OF f q(1) q(1) q(2) q(3), of "JStr ''seven two''"]
    more_run u
  show ?thesis by (intro conjI)
qed

section \<open>Closing\<close>

text \<open>
  Claim C10. \<^verbatim>\<open>close\<close> returns normally on every solver and leaves the listener
  unregistered, and a second \<^verbatim>\<open>close\<close> changes nothing; when the listener is not
  registered, \<^verbatim>\<open>remove_listener\<close> raises \<^verbatim>\<open>KeyError\<close> and \<^verbatim>\<open>close\<close> returns normally with
  the solver as it was.
\<close>

theorem close_never_raises:
  "close s = ret () (s\<lparr>listeners := removeAll (''response'', Extract_token) (listeners s)\<rparr>) \<and>
   bind (close s) (\<lambda>u. close) = close s \<and>
   ((''response'', Extract_token) \<notin> set (listeners s) \<longrightarrow>
      remove_listener ''response'' Extract_token s = raise KeyError s \<and> close s = ret () s)"
  by (simp add: close_def remove_listener_def ret_def raise_def bind_def)

theorem close_never_raises_witness:
  "(''response'', Extract_token) \<notin> set (listeners (init [] [] None)) \<and>
   remove_listener ''response'' Extract_token (init [] [] None) = raise KeyError (init [] [] None) \<and>
   close (init [] [] None) = ret () (init [] [] None) \<and>
   bind (close (init [] [] None)) (\<lambda>u. close) = ret () (init [] [] None)"
  using close_never_raises[of "init [] [] None"] by (simp add: init_def bind_def ret_def)

end
